theory Spec2Isabelle
  imports Complex_Main "HOL-Library.List_Lexorder" "HOL-Library.Char_ord" "HOL-Library.Multiset"
begin

section \<open>Values, errors and records of process_annotations.py\<close>

text \<open>
  A cell of a row read by \<^verbatim>\<open>csv.DictReader\<close> is a Python \<^verbatim>\<open>str\<close>, or \<^verbatim>\<open>None\<close> when the
  line is shorter than the header (\<^verbatim>\<open>restval\<close>). Strings are byte lists (UTF-8); the
  lexicographic order of byte lists is the code-point order Python compares strings by.
\<close>

datatype pyval = PyStr string | PyNone

text \<open>The exceptions the script can raise.\<close>

datatype error = KeyError string | ValueError | TypeError | FileNotFoundError

text \<open>
  A raw row is a dict from column name to cell. The list stored under the key \<^verbatim>\<open>None\<close> for
  surplus cells is never looked up by the script and is left out.
\<close>

type_synonym raw_record = "string \<rightharpoonup> pyval"

text \<open>
  The dict appended to \<^verbatim>\<open>filtered\<close> in \<^verbatim>\<open>filter_by_confidence\<close>. The type \<open>'f\<close> stands
  for Python's \<^verbatim>\<open>float\<close>.
\<close>

record 'f annotation =
  ann_text :: pyval
  ann_annotator_id :: pyval
  ann_label :: pyval
  ann_confidence_score :: 'f

text \<open>\<^verbatim>\<open>row[k]\<close>: raises KeyError when the key is absent.\<close>

definition getitem :: "raw_record \<Rightarrow> string \<Rightarrow> error + pyval" where
  "getitem row k = (case row k of None \<Rightarrow> Inl (KeyError k) | Some v \<Rightarrow> Inr v)"

text \<open>\<^verbatim>\<open>row.get(k)\<close>: \<^verbatim>\<open>None\<close> when the key is absent.\<close>

definition dict_get :: "raw_record \<Rightarrow> string \<Rightarrow> pyval" where
  "dict_get row k = (case row k of None \<Rightarrow> PyNone | Some v \<Rightarrow> v)"

text \<open>
  \<^verbatim>\<open>float(v)\<close>. The builtin is not code of the repository: its reading of a string is the
  parameter \<open>pf\<close> (\<open>None\<close> where \<^verbatim>\<open>float\<close> raises ValueError). On \<^verbatim>\<open>None\<close> the builtin raises
  TypeError.
\<close>

definition py_float :: "(string \<Rightarrow> 'f option) \<Rightarrow> pyval \<Rightarrow> error + 'f" where
  "py_float pf v =
     (case v of
        PyNone \<Rightarrow> Inl TypeError
      | PyStr s \<Rightarrow> (case pf s of None \<Rightarrow> Inl ValueError | Some c \<Rightarrow> Inr c))"

section \<open>Quality check 1: filter_by_confidence\<close>

text \<open>The body of the \<^verbatim>\<open>try\<close>: \<^verbatim>\<open>float(row["confidence_score"])\<close>.\<close>

definition read_confidence :: "(string \<Rightarrow> 'f option) \<Rightarrow> raw_record \<Rightarrow> error + 'f" where
  "read_confidence pf row =
     (case getitem row ''confidence_score'' of
        Inl e \<Rightarrow> Inl e
      | Inr v \<Rightarrow> py_float pf v)"

text \<open>\<^verbatim>\<open>except (KeyError, ValueError)\<close>: the exceptions the handler catches.\<close>

fun caught :: "error \<Rightarrow> bool" where
  "caught (KeyError k) = True"
| "caught ValueError = True"
| "caught TypeError = False"
| "caught FileNotFoundError = False"

text \<open>
  One pass of the loop body on \<open>row\<close>: \<open>Inr None\<close> when the row is skipped, \<open>Inr (Some a)\<close>
  when \<open>a\<close> is appended, \<open>Inl e\<close> when the exception \<open>e\<close> leaves the function. The
  comparison \<^verbatim>\<open>confidence >= threshold\<close> of floats is the parameter \<open>ge\<close>. The dict
  literal evaluates \<^verbatim>\<open>row["text"]\<close> before \<^verbatim>\<open>row["label"]\<close>.
\<close>

definition qc1_row ::
  "(string \<Rightarrow> 'f option) \<Rightarrow> ('f \<Rightarrow> 'f \<Rightarrow> bool) \<Rightarrow> 'f \<Rightarrow> raw_record \<Rightarrow> error + 'f annotation option" where
  "qc1_row pf ge threshold row =
     (case read_confidence pf row of
        Inl e \<Rightarrow> (if caught e then Inr None else Inl e)
      | Inr confidence \<Rightarrow>
          (if ge confidence threshold then
             (case getitem row ''text'' of
                Inl e \<Rightarrow> Inl e
              | Inr t \<Rightarrow>
                  (case getitem row ''label'' of
                     Inl e \<Rightarrow> Inl e
                   | Inr l \<Rightarrow>
                       Inr (Some \<lparr>ann_text = t,
                                  ann_annotator_id = dict_get row ''annotator_id'',
                                  ann_label = l,
                                  ann_confidence_score = confidence\<rparr>)))
           else Inr None))"

text \<open>The \<^verbatim>\<open>for\<close> loop, with the list \<^verbatim>\<open>filtered\<close> as accumulator.\<close>

fun filter_loop ::
  "(string \<Rightarrow> 'f option) \<Rightarrow> ('f \<Rightarrow> 'f \<Rightarrow> bool) \<Rightarrow> 'f \<Rightarrow> raw_record list \<Rightarrow> 'f annotation list
     \<Rightarrow> error + 'f annotation list" where
  "filter_loop pf ge threshold [] filtered = Inr filtered"
| "filter_loop pf ge threshold (row # rows) filtered =
     (case qc1_row pf ge threshold row of
        Inl e \<Rightarrow> Inl e
      | Inr None \<Rightarrow> filter_loop pf ge threshold rows filtered
      | Inr (Some a) \<Rightarrow> filter_loop pf ge threshold rows (filtered @ [a]))"

definition filter_by_confidence ::
  "(string \<Rightarrow> 'f option) \<Rightarrow> ('f \<Rightarrow> 'f \<Rightarrow> bool) \<Rightarrow> raw_record list \<Rightarrow> 'f \<Rightarrow> error + 'f annotation list" where
  "filter_by_confidence pf ge annotations threshold = filter_loop pf ge threshold annotations []"

subsection \<open>The conditions of the specification\<close>

text \<open>
  The confidence field is present, parses as a float, and the parsed value is at least
  the threshold.
\<close>

definition confidence_ok ::
  "(string \<Rightarrow> 'f option) \<Rightarrow> ('f \<Rightarrow> 'f \<Rightarrow> bool) \<Rightarrow> 'f \<Rightarrow> raw_record \<Rightarrow> bool" where
  "confidence_ok pf ge threshold row =
     (case row ''confidence_score'' of
        Some (PyStr s) \<Rightarrow> (case pf s of Some c \<Rightarrow> ge c threshold | None \<Rightarrow> False)
      | Some PyNone \<Rightarrow> False
      | None \<Rightarrow> False)"

definition has_key :: "raw_record \<Rightarrow> string \<Rightarrow> bool" where
  "has_key row k = (row k \<noteq> None)"

text \<open>The annotation \<open>a\<close> carries the fields of \<open>row\<close> verbatim and its parsed confidence.\<close>

definition annotation_of :: "(string \<Rightarrow> 'f option) \<Rightarrow> raw_record \<Rightarrow> 'f annotation \<Rightarrow> bool" where
  "annotation_of pf row a =
     (row ''text'' = Some (ann_text a) \<and> row ''label'' = Some (ann_label a) \<and>
      ann_annotator_id a = dict_get row ''annotator_id'' \<and>
      (case row ''confidence_score'' of
         Some (PyStr s) \<Rightarrow> pf s = Some (ann_confidence_score a)
       | Some PyNone \<Rightarrow> False
       | None \<Rightarrow> False))"

subsection \<open>A reading of plain decimal literals, for concrete runs\<close>

text \<open>
  \<open>float_decimal\<close> reads the literals \<^verbatim>\<open>digits\<close>, \<^verbatim>\<open>digits.digits\<close>, \<^verbatim>\<open>digits.\<close> and
  \<^verbatim>\<open>.digits\<close> as exact rationals and rejects everything else. It instantiates the
  parameter \<open>pf\<close> in the concrete runs below, on literals that \<^verbatim>\<open>float\<close> reads to
  doubles ordered the same way.
\<close>

definition digit_of :: "char \<Rightarrow> nat option" where
  "digit_of c = (let n = (of_char c :: nat) in if 48 \<le> n \<and> n \<le> 57 then Some (n - 48) else None)"

fun digits_of :: "string \<Rightarrow> nat list option" where
  "digits_of [] = Some []"
| "digits_of (c # cs) =
     (case digit_of c of
        None \<Rightarrow> None
      | Some d \<Rightarrow> (case digits_of cs of None \<Rightarrow> None | Some ds \<Rightarrow> Some (d # ds)))"

definition nat_of_digits :: "nat list \<Rightarrow> nat" where
  "nat_of_digits ds = foldl (\<lambda>n d. 10 * n + d) 0 ds"

definition float_decimal :: "string \<Rightarrow> rat option" where
  "float_decimal s =
     (let ip = takeWhile (\<lambda>c. c \<noteq> CHR ''.'') s;
          rest = dropWhile (\<lambda>c. c \<noteq> CHR ''.'') s
      in case rest of
           [] \<Rightarrow> (if ip = [] then None
                   else (case digits_of ip of None \<Rightarrow> None | Some a \<Rightarrow> Some (of_nat (nat_of_digits a))))
         | dot # fp \<Rightarrow>
             (if ip = [] \<and> fp = [] then None
              else (case digits_of ip of
                      None \<Rightarrow> None
                    | Some a \<Rightarrow>
                        (case digits_of fp of
                           None \<Rightarrow> None
                         | Some b \<Rightarrow>
                             Some (of_nat (nat_of_digits a) + of_nat (nat_of_digits b) / 10 ^ length b)))))"

definition ge_rat :: "rat \<Rightarrow> rat \<Rightarrow> bool" where
  "ge_rat c t = (t \<le> c)"

section \<open>Grouping: group_by_text\<close>

text \<open>
  A Python dict keeps its keys in order of first insertion: it is an association list
  with distinct keys. \<open>dict_append k v d\<close> is \<^verbatim>\<open>d[k].append(v)\<close> on a
  \<^verbatim>\<open>defaultdict(list)\<close>: an absent key is inserted last with the one-element list.
\<close>

fun dict_append :: "'k \<Rightarrow> 'v \<Rightarrow> ('k \<times> 'v list) list \<Rightarrow> ('k \<times> 'v list) list" where
  "dict_append k v [] = [(k, [v])]"
| "dict_append k v ((k', vs) # d) =
     (if k' = k then (k', vs @ [v]) # d else (k', vs) # dict_append k v d)"

definition group_by_text :: "'f annotation list \<Rightarrow> (pyval \<times> 'f annotation list) list" where
  "group_by_text annotations =
     foldl (\<lambda>grouped ann. dict_append (ann_text ann) ann grouped) [] annotations"

text \<open>
  The grouping as the specification words it: the distinct texts in order of first
  occurrence, each with the annotations of that text in input order.
\<close>

fun first_seen :: "'a list \<Rightarrow> 'a list" where
  "first_seen [] = []"
| "first_seen (x # xs) = x # filter (\<lambda>y. y \<noteq> x) (first_seen xs)"

definition group_spec :: "'f annotation list \<Rightarrow> (pyval \<times> 'f annotation list) list" where
  "group_spec annotations =
     map (\<lambda>t. (t, filter (\<lambda>a. ann_text a = t) annotations)) (first_seen (map ann_text annotations))"

section \<open>Quality check 2: apply_agreement_check\<close>

text \<open>\<open>dict_set k v d\<close> is \<^verbatim>\<open>d[k] = v\<close>: a present key keeps its place, an absent one goes last.\<close>

fun dict_set :: "'k \<Rightarrow> 'v \<Rightarrow> ('k \<times> 'v) list \<Rightarrow> ('k \<times> 'v) list" where
  "dict_set k v [] = [(k, v)]"
| "dict_set k v ((k', v') # d) = (if k' = k then (k', v) # d else (k', v') # dict_set k v d)"

text \<open>
  A Python set is its elements in iteration order, a list without repetition. The order
  depends on the hashes of the elements, which for strings change from one interpreter run
  to the next; it is the parameter \<open>so\<close>, which sends the elements in the order the set
  comprehension meets them to the order the set iterates them. All that is known of it
  is \<open>valid_set_order\<close>.
\<close>

definition valid_set_order :: "('a list \<Rightarrow> 'a list) \<Rightarrow> bool" where
  "valid_set_order so = (\<forall>xs. set (so xs) = set xs \<and> distinct (so xs))"

text \<open>
  One pass of the loop body. \<^verbatim>\<open>len(labels) == 1\<close> and \<^verbatim>\<open>labels.pop()\<close> are the pattern
  \<open>[l]\<close>; every other length, zero included, takes the \<^verbatim>\<open>else\<close> branch.
\<close>

definition agreement_step ::
  "(pyval list \<Rightarrow> pyval list) \<Rightarrow> (pyval \<times> pyval) list \<times> (pyval \<times> pyval list) list
     \<Rightarrow> pyval \<times> 'f annotation list \<Rightarrow> (pyval \<times> pyval) list \<times> (pyval \<times> pyval list) list" where
  "agreement_step so acc grp =
     (let agreed_samples = fst acc; disagreements = snd acc;
          text = fst grp; anns = snd grp;
          labels = so (map ann_label anns)
      in case labels of
           [l] \<Rightarrow> (dict_set text l agreed_samples, disagreements)
         | _ \<Rightarrow> (agreed_samples, disagreements @ [(text, labels)]))"

definition apply_agreement_check ::
  "(pyval list \<Rightarrow> pyval list) \<Rightarrow> (pyval \<times> 'f annotation list) list
     \<Rightarrow> (pyval \<times> pyval) list \<times> (pyval \<times> pyval list) list" where
  "apply_agreement_check so grouped_annotations = foldl (agreement_step so) ([], []) grouped_annotations"

text \<open>What one group contributes to each output.\<close>

definition agreed_of :: "(pyval list \<Rightarrow> pyval list) \<Rightarrow> pyval \<times> 'f annotation list \<Rightarrow> (pyval \<times> pyval) option" where
  "agreed_of so grp =
     (case so (map ann_label (snd grp)) of [l] \<Rightarrow> Some (fst grp, l) | _ \<Rightarrow> None)"

definition disagreement_of ::
  "(pyval list \<Rightarrow> pyval list) \<Rightarrow> pyval \<times> 'f annotation list \<Rightarrow> (pyval \<times> pyval list) option" where
  "disagreement_of so grp =
     (case so (map ann_label (snd grp)) of
        [l] \<Rightarrow> None
      | _ \<Rightarrow> Some (fst grp, so (map ann_label (snd grp))))"

section \<open>Output: write_outputs\<close>

definition newline :: char where
  "newline = CHR 0x0A"

definition dquote :: char where
  "dquote = CHR 0x22"

definition backslash :: char where
  "backslash = CHR 0x5C"

text \<open>
  \<^verbatim>\<open>json.dumps(s, ensure_ascii=False)\<close> on a string: the quote, the backslash and the
  control characters below 0x20 are escaped, every other byte is copied.
\<close>

definition hex_digit :: "nat \<Rightarrow> char" where
  "hex_digit n = (if n < 10 then char_of (48 + n) else char_of (87 + n))"

definition json_escape :: "char \<Rightarrow> string" where
  "json_escape c =
     (if c = dquote then [backslash, dquote]
      else if c = backslash then [backslash, backslash]
      else if c = CHR 0x0A then [backslash, CHR ''n'']
      else if c = CHR 0x0D then [backslash, CHR ''r'']
      else if c = CHR 0x09 then [backslash, CHR ''t'']
      else if c = CHR 0x08 then [backslash, CHR ''b'']
      else if c = CHR 0x0C then [backslash, CHR ''f'']
      else if (of_char c :: nat) < 32 then
        [backslash, CHR ''u'', CHR ''0'', CHR ''0'',
         hex_digit ((of_char c :: nat) div 16), hex_digit ((of_char c :: nat) mod 16)]
      else [c])"

definition json_string :: "string \<Rightarrow> string" where
  "json_string s = [dquote] @ concat (map json_escape s) @ [dquote]"

fun json_value :: "pyval \<Rightarrow> string" where
  "json_value (PyStr s) = json_string s"
| "json_value PyNone = ''null''"

text \<open>\<^verbatim>\<open>json.dumps({"text": text, "label": label}, ensure_ascii=False)\<close>, default separators.\<close>

definition json_dumps_record :: "pyval \<Rightarrow> pyval \<Rightarrow> string" where
  "json_dumps_record text label =
     [CHR ''{'', dquote] @ ''text'' @ [dquote] @ '': '' @ json_value text @ '', '' @
     [dquote] @ ''label'' @ [dquote] @ '': '' @ json_value label @ [CHR ''}'']"

text \<open>The loop over \<^verbatim>\<open>agreed_samples.items()\<close>; \<open>out\<close> is what \<^verbatim>\<open>clean_f\<close> holds so far.\<close>

definition write_clean :: "(pyval \<times> pyval) list \<Rightarrow> string" where
  "write_clean agreed_samples =
     foldl (\<lambda>out item. out @ json_dumps_record (fst item) (snd item) @ [newline]) [] agreed_samples"

text \<open>A value formatted in an f-string.\<close>

fun py_str :: "pyval \<Rightarrow> string" where
  "py_str (PyStr s) = s"
| "py_str PyNone = ''None''"

text \<open>The strings of a list of values, when all of them are strings.\<close>

fun the_strs :: "pyval list \<Rightarrow> string list option" where
  "the_strs [] = Some []"
| "the_strs (PyStr s # vs) = (case the_strs vs of None \<Rightarrow> None | Some ss \<Rightarrow> Some (s # ss))"
| "the_strs (PyNone # vs) = None"

text \<open>
  \<^verbatim>\<open>sorted(labels)\<close>: strings sort by code point; a comparison with \<^verbatim>\<open>None\<close> raises
  TypeError, and a list of two or more values always makes one.
\<close>

definition py_sorted :: "pyval list \<Rightarrow> error + pyval list" where
  "py_sorted vs =
     (if length vs \<le> 1 then Inr vs
      else (case the_strs vs of None \<Rightarrow> Inl TypeError | Some ss \<Rightarrow> Inr (map PyStr (sort ss))))"

fun join_with :: "string \<Rightarrow> string list \<Rightarrow> string" where
  "join_with sep [] = []"
| "join_with sep [s] = s"
| "join_with sep (s # t # ss) = s @ sep @ join_with sep (t # ss)"

text \<open>\<^verbatim>\<open>sep.join(vs)\<close>: TypeError when an item is not a string.\<close>

definition py_join :: "string \<Rightarrow> pyval list \<Rightarrow> error + string" where
  "py_join sep vs = (case the_strs vs of None \<Rightarrow> Inl TypeError | Some ss \<Rightarrow> Inr (join_with sep ss))"

definition label_list :: "pyval list \<Rightarrow> error + string" where
  "label_list labels =
     (case py_sorted labels of Inl e \<Rightarrow> Inl e | Inr sorted_labels \<Rightarrow> py_join '', '' sorted_labels)"

text \<open>
  The loop over \<^verbatim>\<open>disagreements\<close>; \<open>out\<close> is what \<^verbatim>\<open>log_f\<close> holds so far. An exception
  leaves the loop, and the \<^verbatim>\<open>with\<close> block closes the file with what was written.
\<close>

fun write_log :: "(pyval \<times> pyval list) list \<Rightarrow> string \<Rightarrow> string \<times> error option" where
  "write_log [] out = (out, None)"
| "write_log ((text, labels) # ds) out =
     (case label_list labels of
        Inl e \<Rightarrow> (out, Some e)
      | Inr ll \<Rightarrow> write_log ds (out @ ''TEXT: '' @ py_str text @ '' | LABELS: '' @ ll @ [newline]))"

text \<open>
  The contents of the two files after \<^verbatim>\<open>write_outputs\<close>, and the exception that left it,
  if any. Both files are taken to open for writing, and a written newline to stay one
  byte (no translation of line ends).
\<close>

record outputs =
  clean_file :: string
  disagreements_file :: string
  raised :: "error option"

definition write_outputs :: "(pyval \<times> pyval) list \<Rightarrow> (pyval \<times> pyval list) list \<Rightarrow> outputs" where
  "write_outputs agreed_samples disagreements =
     (let clean = write_clean agreed_samples;
          log = write_log disagreements []
      in \<lparr>clean_file = clean, disagreements_file = fst log, raised = snd log\<rparr>)"

text \<open>The lines of a file: the segments that end in a newline, and a last unfinished one.\<close>

fun split_lines :: "string \<Rightarrow> string \<Rightarrow> string list" where
  "split_lines cur [] = (if cur = [] then [] else [cur])"
| "split_lines cur (c # cs) =
     (if c = newline then cur # split_lines [] cs else split_lines (cur @ [c]) cs)"

definition lines_of :: "string \<Rightarrow> string list" where
  "lines_of s = split_lines [] s"

text \<open>The line the specification gives for a disagreement.\<close>

definition disagreement_line :: "pyval \<times> pyval list \<Rightarrow> string" where
  "disagreement_line d =
     ''TEXT: '' @ py_str (fst d) @ '' | LABELS: '' @ join_with '', '' (sort (map py_str (snd d)))"

definition clean_line :: "pyval \<times> pyval \<Rightarrow> string" where
  "clean_line item = json_dumps_record (fst item) (snd item)"

subsection \<open>Reading a line of the clean file back\<close>

text \<open>
  A reader for one line of the clean file: a JSON object with exactly the two members
  \<^verbatim>\<open>text\<close> and \<^verbatim>\<open>label\<close>, in this order and with the separators \<^verbatim>\<open>json.dumps\<close> writes,
  each value being \<^verbatim>\<open>null\<close> or a string literal. It is the measure of what a line holds,
  not code of the script.
\<close>

definition unhex :: "char \<Rightarrow> nat option" where
  "unhex c =
     (let n = (of_char c :: nat)
      in if 48 \<le> n \<and> n \<le> 57 then Some (n - 48)
         else if 97 \<le> n \<and> n \<le> 102 then Some (n - 87)
         else None)"

definition unescape_simple :: "char \<Rightarrow> char option" where
  "unescape_simple e =
     (if e = dquote then Some dquote
      else if e = backslash then Some backslash
      else if e = CHR ''n'' then Some (CHR 0x0A)
      else if e = CHR ''r'' then Some (CHR 0x0D)
      else if e = CHR ''t'' then Some (CHR 0x09)
      else if e = CHR ''b'' then Some (CHR 0x08)
      else if e = CHR ''f'' then Some (CHR 0x0C)
      else None)"

definition cons_result :: "char \<Rightarrow> (string \<times> string) option \<Rightarrow> (string \<times> string) option" where
  "cons_result c r = (case r of None \<Rightarrow> None | Some (s, rest) \<Rightarrow> Some (c # s, rest))"

function read_string_body :: "string \<Rightarrow> (string \<times> string) option" where
  "read_string_body [] = None"
| "read_string_body (c # cs) =
     (if c = dquote then Some ([], cs)
      else if c = backslash then
        (case cs of
           [] \<Rightarrow> None
         | e # cs1 \<Rightarrow>
             (if e = CHR ''u'' then
                (case cs1 of
                   z1 # z2 # h # l # cs2 \<Rightarrow>
                     (if z1 = CHR ''0'' \<and> z2 = CHR ''0'' then
                        (case unhex h of
                           None \<Rightarrow> None
                         | Some x \<Rightarrow>
                             (case unhex l of
                                None \<Rightarrow> None
                              | Some y \<Rightarrow> cons_result (char_of (16 * x + y)) (read_string_body cs2)))
                      else None)
                 | _ \<Rightarrow> None)
              else
                (case unescape_simple e of
                   None \<Rightarrow> None
                 | Some d \<Rightarrow> cons_result d (read_string_body cs1))))
      else cons_result c (read_string_body cs))"
  by pat_completeness auto
termination
  by (relation "measure length") auto

definition expect :: "string \<Rightarrow> string \<Rightarrow> string option" where
  "expect p s = (if take (length p) s = p then Some (drop (length p) s) else None)"

definition read_value :: "string \<Rightarrow> (pyval \<times> string) option" where
  "read_value s =
     (case expect ''null'' s of
        Some rest \<Rightarrow> Some (PyNone, rest)
      | None \<Rightarrow>
          (case s of
             [] \<Rightarrow> None
           | c # cs \<Rightarrow>
               (if c = dquote then
                  (case read_string_body cs of None \<Rightarrow> None | Some (str, rest) \<Rightarrow> Some (PyStr str, rest))
                else None)))"

definition parse_record :: "string \<Rightarrow> (pyval \<times> pyval) option" where
  "parse_record s =
     (case expect ([CHR ''{'', dquote] @ ''text'' @ [dquote] @ '': '') s of
        None \<Rightarrow> None
      | Some r1 \<Rightarrow>
          (case read_value r1 of
             None \<Rightarrow> None
           | Some (t, r2) \<Rightarrow>
               (case expect ('', '' @ [dquote] @ ''label'' @ [dquote] @ '': '') r2 of
                  None \<Rightarrow> None
                | Some r3 \<Rightarrow>
                    (case read_value r3 of
                       None \<Rightarrow> None
                     | Some (l, r4) \<Rightarrow> (if r4 = [CHR ''}''] then Some (t, l) else None)))))"

section \<open>The whole run: main\<close>

text \<open>
  \<open>input\<close> is the content of the input file, \<open>None\<close> when it does not exist; \<open>csv\<close> is
  \<^verbatim>\<open>csv.DictReader\<close>, a function of that content. The result is \<open>Inl e\<close> when \<open>e\<close> is
  raised before a file is opened for writing. Console messages are left out.
\<close>

definition main ::
  "(pyval list \<Rightarrow> pyval list) \<Rightarrow> (string \<Rightarrow> raw_record list) \<Rightarrow> (string \<Rightarrow> 'f option) \<Rightarrow> ('f \<Rightarrow> 'f \<Rightarrow> bool)
     \<Rightarrow> 'f \<Rightarrow> string option \<Rightarrow> error + outputs" where
  "main so csv pf ge threshold input =
     (case input of
        None \<Rightarrow> Inl FileNotFoundError
      | Some content \<Rightarrow>
          (case filter_by_confidence pf ge (csv content) threshold of
             Inl e \<Rightarrow> Inl e
           | Inr high_conf_annotations \<Rightarrow>
               (let grouped = group_by_text high_conf_annotations;
                    checked = apply_agreement_check so grouped
                in Inr (write_outputs (fst checked) (snd checked)))))"

section \<open>Sample rows\<close>

text \<open>A row with the four columns of the input file, and one cut short before the confidence.\<close>

definition csv_row :: "string \<Rightarrow> string \<Rightarrow> string \<Rightarrow> string \<Rightarrow> raw_record" where
  "csv_row t a l c =
     [''text'' \<mapsto> PyStr t, ''annotator_id'' \<mapsto> PyStr a, ''label'' \<mapsto> PyStr l,
      ''confidence_score'' \<mapsto> PyStr c]"

definition short_row :: "string \<Rightarrow> string \<Rightarrow> string \<Rightarrow> raw_record" where
  "short_row t a l =
     [''text'' \<mapsto> PyStr t, ''annotator_id'' \<mapsto> PyStr a, ''label'' \<mapsto> PyStr l,
      ''confidence_score'' \<mapsto> PyNone]"

definition accepted :: "string \<Rightarrow> string \<Rightarrow> string \<Rightarrow> 'f \<Rightarrow> 'f annotation" where
  "accepted t a l c =
     \<lparr>ann_text = PyStr t, ann_annotator_id = PyStr a, ann_label = PyStr l, ann_confidence_score = c\<rparr>"

text \<open>
  Two texts after the confidence filter: x with the labels cat and dog, y with the label
  cat.
\<close>

definition sample_groups :: "(pyval \<times> rat annotation list) list" where
  "sample_groups =
     [(PyStr ''x'', [accepted ''x'' ''a'' ''cat'' (9 / 10), accepted ''x'' ''b'' ''dog'' (95 / 100)]),
      (PyStr ''y'', [accepted ''y'' ''a'' ''cat'' (9 / 10)])]"

text \<open>
  The rows of the scenarios of the specification in one file, and the annotations the
  confidence filter keeps of them at the threshold 0.8.
\<close>

definition sample_rows :: "raw_record list" where
  "sample_rows =
     [csv_row ''hello'' ''alice'' ''pos'' ''0.9'', csv_row ''x'' ''a'' ''cat'' ''0.9'',
      csv_row ''hello'' ''bob'' ''pos'' ''0.85'', csv_row ''world'' ''carol'' ''neg'' ''0.5'',
      csv_row ''x'' ''b'' ''dog'' ''0.95'']"

definition sample_accepted :: "rat annotation list" where
  "sample_accepted =
     [accepted ''hello'' ''alice'' ''pos'' (9 / 10), accepted ''x'' ''a'' ''cat'' (9 / 10),
      accepted ''hello'' ''bob'' ''pos'' (85 / 100), accepted ''x'' ''b'' ''dog'' (95 / 100)]"

section \<open>Properties of the confidence filter\<close>

lemma qc1_row_Some_iff:
  "qc1_row pf ge th row = Inr (Some a) \<longleftrightarrow> confidence_ok pf ge th row \<and> annotation_of pf row a"
  by (auto simp: qc1_row_def read_confidence_def getitem_def py_float_def confidence_ok_def
      annotation_of_def split: option.splits pyval.splits)

lemma qc1_row_None_iff:
  "qc1_row pf ge th row = Inr None \<longleftrightarrow>
     \<not> confidence_ok pf ge th row \<and> row ''confidence_score'' \<noteq> Some PyNone"
  by (auto simp: qc1_row_def read_confidence_def getitem_def py_float_def confidence_ok_def
      split: option.splits pyval.splits)

lemma qc1_row_Inl_iff:
  "qc1_row pf ge th row = Inl e \<longleftrightarrow>
     (row ''confidence_score'' = Some PyNone \<and> e = TypeError) \<or>
     (confidence_ok pf ge th row \<and> row ''text'' = None \<and> e = KeyError ''text'') \<or>
     (confidence_ok pf ge th row \<and> row ''text'' \<noteq> None \<and> row ''label'' = None \<and> e = KeyError ''label'')"
  by (auto simp: qc1_row_def read_confidence_def getitem_def py_float_def confidence_ok_def
      split: option.splits pyval.splits)

lemma qc1_row_no_error:
  assumes "row ''confidence_score'' \<noteq> Some PyNone"
  shows "(\<forall>e. qc1_row pf ge th row \<noteq> Inl e) \<longleftrightarrow>
         (confidence_ok pf ge th row \<longrightarrow> has_key row ''text'' \<and> has_key row ''label'')"
proof (cases "confidence_ok pf ge th row")
  case False
  with assms show ?thesis by (simp add: qc1_row_Inl_iff)
next
  case True
  show ?thesis
  proof (cases "row ''text''")
    case None
    with True show ?thesis by (auto simp: qc1_row_Inl_iff has_key_def)
  next
    case (Some t)
    with True assms show ?thesis by (cases "row ''label''") (auto simp: qc1_row_Inl_iff has_key_def)
  qed
qed

lemma annotation_of_ge:
  "confidence_ok pf ge th row \<Longrightarrow> annotation_of pf row a \<Longrightarrow> ge (ann_confidence_score a) th"
  by (auto simp: confidence_ok_def annotation_of_def split: option.splits pyval.splits)


text \<open>
  When the loop returns, it has appended one annotation for each row that meets the
  confidence condition, in input order, and nothing else.
\<close>

lemma filter_loop_Inr:
  "filter_loop pf ge th rows acc = Inr res \<Longrightarrow>
     \<exists>new. res = acc @ new \<and> list_all2 (annotation_of pf) (filter (confidence_ok pf ge th) rows) new"
proof (induction rows arbitrary: acc res)
  case Nil
  then show ?case by simp
next
  case (Cons row rows)
  show ?case
  proof (cases "qc1_row pf ge th row")
    case (Inl e)
    with Cons.prems show ?thesis by simp
  next
    case (Inr r)
    show ?thesis
    proof (cases r)
      case None
      with Inr have "\<not> confidence_ok pf ge th row" by (simp add: qc1_row_None_iff)
      moreover from None Inr Cons.prems have "filter_loop pf ge th rows acc = Inr res" by simp
      ultimately show ?thesis using Cons.IH by simp
    next
      case (Some a)
      with Inr have ok: "confidence_ok pf ge th row" and an: "annotation_of pf row a"
        by (simp_all add: qc1_row_Some_iff)
      from Some Inr Cons.prems have "filter_loop pf ge th rows (acc @ [a]) = Inr res" by simp
      from Cons.IH [OF this] obtain new where
        "res = (acc @ [a]) @ new" "list_all2 (annotation_of pf) (filter (confidence_ok pf ge th) rows) new"
        by blast
      with ok an show ?thesis by (intro exI [of _ "a # new"]) simp
    qed
  qed
qed


lemma filter_loop_returns:
  "(\<exists>res. filter_loop pf ge th rows acc = Inr res) \<longleftrightarrow>
     (\<forall>row\<in>set rows. \<forall>e. qc1_row pf ge th row \<noteq> Inl e)"
proof (induction rows arbitrary: acc)
  case Nil
  show ?case by simp
next
  case (Cons row rows)
  show ?case
  proof (cases "qc1_row pf ge th row")
    case (Inl e)
    then show ?thesis by auto
  next
    case (Inr r)
    then show ?thesis using Cons.IH by (cases r) simp_all
  qed
qed

lemma filter_single:
  "filter_by_confidence pf ge [row] th =
     (case qc1_row pf ge th row of Inl e \<Rightarrow> Inl e | Inr None \<Rightarrow> Inr [] | Inr (Some a) \<Rightarrow> Inr [a])"
  by (simp add: filter_by_confidence_def split: sum.splits option.splits)

lemma filter_by_confidence_ge:
  assumes "filter_by_confidence pf ge rows th = Inr res" and "a \<in> set res"
  shows "ge (ann_confidence_score a) th"
proof -
  from assms(1) obtain new where
    "res = [] @ new" and rel: "list_all2 (annotation_of pf) (filter (confidence_ok pf ge th) rows) new"
    unfolding filter_by_confidence_def by (blast dest: filter_loop_Inr)
  with assms(2) have "a \<in> set new" by simp
  then obtain i where i: "i < length new" "new ! i = a" by (auto simp: in_set_conv_nth)
  let ?ok = "filter (confidence_ok pf ge th) rows"
  from rel i have "i < length ?ok" and "annotation_of pf (?ok ! i) a"
    by (auto simp: list_all2_conv_all_nth)
  moreover from \<open>i < length ?ok\<close> have "?ok ! i \<in> set ?ok" by (rule nth_mem)
  then have "confidence_ok pf ge th (?ok ! i)" by simp
  ultimately show ?thesis by (blast intro: annotation_of_ge)
qed


lemma fd09: "float_decimal ''0.9'' = Some (9 / 10)"
  by code_simp

lemma fd08: "float_decimal ''0.8'' = Some (8 / 10)"
  by code_simp

lemma fd05: "float_decimal ''0.5'' = Some (5 / 10)"
  by code_simp

lemma fd085: "float_decimal ''0.85'' = Some (85 / 100)"
  by code_simp

lemma fd095: "float_decimal ''0.95'' = Some (95 / 100)"
  by code_simp

lemma fdabc: "float_decimal ''abc'' = None"
  by code_simp

lemmas fd_simps = fd09 fd08 fd05 fd085 fd095 fdabc

lemmas qc1_defs = filter_by_confidence_def qc1_row_def read_confidence_def getitem_def dict_get_def
  py_float_def ge_rat_def confidence_ok_def has_key_def annotation_of_def csv_row_def short_row_def
  accepted_def

text \<open>
  C1, as the code has it. A record that has its \<^verbatim>\<open>text\<close> and \<^verbatim>\<open>label\<close> fields yields an
  accepted annotation (carrying its fields verbatim) if and only if its confidence field
  is present, parses as a float and the parsed value is at least the threshold, the
  boundary included. On any sequence of records that all have these two fields and a
  confidence cell other than \<^verbatim>\<open>None\<close>, the filter returns, and what it returns is one
  annotation for each record that meets the confidence condition, in input order, and
  nothing for the others. Whenever the filter returns, its result is of this form and
  every annotation in it has a confidence at least the threshold.
\<close>

theorem filter_accepts_iff_confident:
  "((has_key row ''text'' \<and> has_key row ''label'') \<longrightarrow>
      ((\<exists>a. filter_by_confidence pf ge [row] th = Inr [a] \<and> annotation_of pf row a) \<longleftrightarrow>
         confidence_ok pf ge th row)) \<and>
   ((\<forall>r\<in>set rows. has_key r ''text'' \<and> has_key r ''label'' \<and> r ''confidence_score'' \<noteq> Some PyNone) \<longrightarrow>
      (\<exists>res. filter_by_confidence pf ge rows th = Inr res \<and>
             list_all2 (annotation_of pf) (filter (confidence_ok pf ge th) rows) res \<and>
             (\<forall>a\<in>set res. ge (ann_confidence_score a) th))) \<and>
   (\<forall>rows' res. filter_by_confidence pf ge rows' th = Inr res \<longrightarrow>
      list_all2 (annotation_of pf) (filter (confidence_ok pf ge th) rows') res \<and>
      (\<forall>a\<in>set res. ge (ann_confidence_score a) th))"
proof (intro conjI)
  show "(has_key row ''text'' \<and> has_key row ''label'') \<longrightarrow>
      ((\<exists>a. filter_by_confidence pf ge [row] th = Inr [a] \<and> annotation_of pf row a) \<longleftrightarrow>
         confidence_ok pf ge th row)"
  proof
    assume k: "has_key row ''text'' \<and> has_key row ''label''"
    show "(\<exists>a. filter_by_confidence pf ge [row] th = Inr [a] \<and> annotation_of pf row a) \<longleftrightarrow>
        confidence_ok pf ge th row"
    proof
      assume "\<exists>a. filter_by_confidence pf ge [row] th = Inr [a] \<and> annotation_of pf row a"
      then obtain a where "filter_by_confidence pf ge [row] th = Inr [a]" by blast
      then have "qc1_row pf ge th row = Inr (Some a)"
        by (simp add: filter_single split: sum.splits option.splits)
      then show "confidence_ok pf ge th row" by (simp add: qc1_row_Some_iff)
    next
      assume ok: "confidence_ok pf ge th row"
      have "\<not> (\<exists>e. qc1_row pf ge th row = Inl e)"
        using k ok by (auto simp: qc1_row_Inl_iff has_key_def confidence_ok_def)
      moreover have "qc1_row pf ge th row \<noteq> Inr None"
        using ok by (simp add: qc1_row_None_iff)
      ultimately obtain a where a: "qc1_row pf ge th row = Inr (Some a)"
        by (cases "qc1_row pf ge th row") auto
      then have "annotation_of pf row a" by (simp add: qc1_row_Some_iff)
      with a show "\<exists>a. filter_by_confidence pf ge [row] th = Inr [a] \<and> annotation_of pf row a"
        by (auto simp: filter_single)
    qed
  qed
next
  have general: "list_all2 (annotation_of pf) (filter (confidence_ok pf ge th) rs) res \<and>
      (\<forall>a\<in>set res. ge (ann_confidence_score a) th)"
    if r: "filter_by_confidence pf ge rs th = Inr res" for rs res
  proof
    from r obtain new where "res = [] @ new"
      "list_all2 (annotation_of pf) (filter (confidence_ok pf ge th) rs) new"
      unfolding filter_by_confidence_def by (blast dest: filter_loop_Inr)
    then show "list_all2 (annotation_of pf) (filter (confidence_ok pf ge th) rs) res" by simp
    from r show "\<forall>a\<in>set res. ge (ann_confidence_score a) th"
      by (blast intro: filter_by_confidence_ge)
  qed
  show "\<forall>rows' res. filter_by_confidence pf ge rows' th = Inr res \<longrightarrow>
      list_all2 (annotation_of pf) (filter (confidence_ok pf ge th) rows') res \<and>
      (\<forall>a\<in>set res. ge (ann_confidence_score a) th)"
    using general by blast
  show "(\<forall>r\<in>set rows. has_key r ''text'' \<and> has_key r ''label'' \<and> r ''confidence_score'' \<noteq> Some PyNone) \<longrightarrow>
      (\<exists>res. filter_by_confidence pf ge rows th = Inr res \<and>
             list_all2 (annotation_of pf) (filter (confidence_ok pf ge th) rows) res \<and>
             (\<forall>a\<in>set res. ge (ann_confidence_score a) th))"
  proof
    assume h: "\<forall>r\<in>set rows. has_key r ''text'' \<and> has_key r ''label'' \<and> r ''confidence_score'' \<noteq> Some PyNone"
    have "\<forall>r\<in>set rows. \<forall>e. qc1_row pf ge th r \<noteq> Inl e"
    proof
      fix r
      assume "r \<in> set rows"
      with h have "r ''confidence_score'' \<noteq> Some PyNone" "has_key r ''text'' \<and> has_key r ''label''"
        by simp_all
      then show "\<forall>e. qc1_row pf ge th r \<noteq> Inl e" by (simp add: qc1_row_no_error)
    qed
    then obtain res where res: "filter_by_confidence pf ge rows th = Inr res"
      unfolding filter_by_confidence_def using filter_loop_returns [of pf ge th rows "[]"] by blast
    with general [OF res] show "\<exists>res. filter_by_confidence pf ge rows th = Inr res \<and>
             list_all2 (annotation_of pf) (filter (confidence_ok pf ge th) rows) res \<and>
             (\<forall>a\<in>set res. ge (ann_confidence_score a) th)"
      by blast
  qed
qed

text \<open>
  A row exactly at the threshold 0.8 is accepted; of the five sample rows the four that
  meet the condition are kept, in order.
\<close>

lemma sample_rows_filtered:
  "filter_by_confidence float_decimal ge_rat sample_rows (8 / 10) = Inr sample_accepted"
  by code_simp

lemma sample_rows_confident:
  "filter (confidence_ok float_decimal ge_rat (8 / 10)) sample_rows =
     [csv_row ''hello'' ''alice'' ''pos'' ''0.9'', csv_row ''x'' ''a'' ''cat'' ''0.9'',
      csv_row ''hello'' ''bob'' ''pos'' ''0.85'', csv_row ''x'' ''b'' ''dog'' ''0.95'']"
  by (simp add: sample_rows_def qc1_defs fd_simps)

theorem filter_accepts_iff_confident_witness:
  "has_key (csv_row ''hello'' ''alice'' ''pos'' ''0.8'') ''text'' \<and>
   has_key (csv_row ''hello'' ''alice'' ''pos'' ''0.8'') ''label'' \<and>
   confidence_ok float_decimal ge_rat (8 / 10) (csv_row ''hello'' ''alice'' ''pos'' ''0.8'') \<and>
   filter_by_confidence float_decimal ge_rat [csv_row ''hello'' ''alice'' ''pos'' ''0.8''] (8 / 10) =
     Inr [accepted ''hello'' ''alice'' ''pos'' (8 / 10)] \<and>
   ge_rat (ann_confidence_score (accepted ''hello'' ''alice'' ''pos'' (8 / 10 :: rat))) (8 / 10) \<and>
   list_all (\<lambda>r. has_key r ''text'' \<and> has_key r ''label'' \<and> r ''confidence_score'' \<noteq> Some PyNone)
     sample_rows \<and>
   filter_by_confidence float_decimal ge_rat sample_rows (8 / 10) = Inr sample_accepted \<and>
   length sample_rows = 5 \<and> length sample_accepted = 4 \<and>
   list_all2 (annotation_of float_decimal)
     [csv_row ''hello'' ''alice'' ''pos'' ''0.9'', csv_row ''x'' ''a'' ''cat'' ''0.9'',
      csv_row ''hello'' ''bob'' ''pos'' ''0.85'', csv_row ''x'' ''b'' ''dog'' ''0.95'']
     sample_accepted"
proof -
  let ?row = "csv_row ''hello'' ''alice'' ''pos'' ''0.8''"
  note t = filter_accepts_iff_confident [of ?row float_decimal ge_rat "8 / 10" sample_rows]
  have k1: "has_key ?row ''text''" and k2: "has_key ?row ''label''"
    by (simp_all add: qc1_defs)
  have ok: "confidence_ok float_decimal ge_rat (8 / 10) ?row"
    by (simp add: qc1_defs fd_simps)
  have run: "filter_by_confidence float_decimal ge_rat [?row] (8 / 10) =
      Inr [accepted ''hello'' ''alice'' ''pos'' (8 / 10)]"
    by (simp add: qc1_defs fd_simps)
  have g: "ge_rat (ann_confidence_score (accepted ''hello'' ''alice'' ''pos'' (8 / 10 :: rat))) (8 / 10)"
    by (simp add: qc1_defs)
  have h: "\<forall>r\<in>set sample_rows. has_key r ''text'' \<and> has_key r ''label'' \<and> r ''confidence_score'' \<noteq> Some PyNone"
    by (simp add: sample_rows_def csv_row_def has_key_def)
  have h': "list_all (\<lambda>r. has_key r ''text'' \<and> has_key r ''label'' \<and> r ''confidence_score'' \<noteq> Some PyNone)
      sample_rows"
    using h by (simp only: list_all_iff)
  from t have "(\<forall>r\<in>set sample_rows. has_key r ''text'' \<and> has_key r ''label'' \<and> r ''confidence_score'' \<noteq> Some PyNone) \<longrightarrow>
      (\<exists>res. filter_by_confidence float_decimal ge_rat sample_rows (8 / 10) = Inr res \<and>
             list_all2 (annotation_of float_decimal)
               (filter (confidence_ok float_decimal ge_rat (8 / 10)) sample_rows) res \<and>
             (\<forall>a\<in>set res. ge_rat (ann_confidence_score a) (8 / 10)))"
    by (rule conjunct1 [OF conjunct2])
  with h obtain res where r: "filter_by_confidence float_decimal ge_rat sample_rows (8 / 10) = Inr res"
    and l: "list_all2 (annotation_of float_decimal)
               (filter (confidence_ok float_decimal ge_rat (8 / 10)) sample_rows) res"
    by blast
  from r have "res = sample_accepted" by (simp only: sample_rows_filtered sum.inject)
  with l have l2: "list_all2 (annotation_of float_decimal)
     [csv_row ''hello'' ''alice'' ''pos'' ''0.9'', csv_row ''x'' ''a'' ''cat'' ''0.9'',
      csv_row ''hello'' ''bob'' ''pos'' ''0.85'', csv_row ''x'' ''b'' ''dog'' ''0.95'']
     sample_accepted"
    by (simp only: sample_rows_confident)
  have n5: "length sample_rows = 5" by (simp add: sample_rows_def)
  have n4: "length sample_accepted = 4" by (simp add: sample_accepted_def)
  show ?thesis by (intro conjI k1 k2 ok run g h' sample_rows_filtered n5 n4 l2)
qed

text \<open>
  C1 as stated fails on a row without a \<^verbatim>\<open>text\<close> field: its confidence 0.9 is present,
  parses and is above 0.8, and no annotation is produced, since \<^verbatim>\<open>row["text"]\<close> raises
  KeyError.
\<close>

theorem filter_missing_text_counterexample:
  "confidence_ok float_decimal ge_rat (8 / 10)
     [''label'' \<mapsto> PyStr ''pos'', ''confidence_score'' \<mapsto> PyStr ''0.9''] \<and>
   filter_by_confidence float_decimal ge_rat
     [[''label'' \<mapsto> PyStr ''pos'', ''confidence_score'' \<mapsto> PyStr ''0.9'']] (8 / 10) =
     Inl (KeyError ''text'')"
  by (simp add: qc1_defs fd_simps)




text \<open>
  C3 fails on a line cut short before the confidence column: \<^verbatim>\<open>csv.DictReader\<close> gives the
  cell \<^verbatim>\<open>None\<close>, \<^verbatim>\<open>float(None)\<close> raises TypeError, and the handler catches KeyError and
  ValueError only. The record is not dropped: the exception leaves the filter, whatever
  \<^verbatim>\<open>float\<close> reads and whatever the threshold, and the good row after it is never reached.
\<close>

theorem filter_none_confidence_raises:
  "filter_by_confidence pf ge
     [short_row ''hello'' ''alice'' ''pos'', csv_row ''hello'' ''bob'' ''pos'' ''0.9''] th = Inl TypeError"
  by (simp add: qc1_defs)

section \<open>Properties of the grouping\<close>

lemma set_first_seen: "set (first_seen xs) = set xs"
  by (induction xs) auto

lemma distinct_first_seen: "distinct (first_seen xs)"
  by (induction xs) (auto simp: set_first_seen)

lemma first_seen_snoc:
  "first_seen (xs @ [x]) = (if x \<in> set xs then first_seen xs else first_seen xs @ [x])"
  by (induction xs) auto

lemma dict_append_absent:
  "k \<notin> fst ` set d \<Longrightarrow> dict_append k v d = d @ [(k, [v])]"
  by (induction d) auto

lemma dict_append_present:
  "k \<in> set ts \<Longrightarrow> distinct ts \<Longrightarrow>
     dict_append k v (map (\<lambda>t. (t, f t)) ts) = map (\<lambda>t. (t, if t = k then f t @ [v] else f t)) ts"
  by (induction ts) auto

lemma mset_dict_append:
  "mset (concat (map snd (dict_append k v d))) = mset (concat (map snd d)) + {#v#}"
  by (induction d) auto

lemma group_by_text_snoc:
  "group_by_text (anns @ [a]) = dict_append (ann_text a) a (group_by_text anns)"
  by (simp add: group_by_text_def)

lemma group_spec_snoc:
  "group_spec (anns @ [a]) = dict_append (ann_text a) a (group_spec anns)"
proof (cases "ann_text a \<in> set (map ann_text anns)")
  case True
  then have "ann_text a \<in> set (first_seen (map ann_text anns))"
    by (simp only: set_first_seen)
  then have "dict_append (ann_text a) a (group_spec anns) =
      map (\<lambda>t. (t, if t = ann_text a then filter (\<lambda>b. ann_text b = t) anns @ [a]
                     else filter (\<lambda>b. ann_text b = t) anns))
        (first_seen (map ann_text anns))"
    unfolding group_spec_def by (rule dict_append_present) (rule distinct_first_seen)
  moreover from True have "first_seen (map ann_text (anns @ [a])) = first_seen (map ann_text anns)"
    by (simp add: first_seen_snoc)
  ultimately show ?thesis by (auto simp: group_spec_def)
next
  case False
  then have "ann_text a \<notin> fst ` set (group_spec anns)"
    by (simp add: group_spec_def image_image set_first_seen)
  then have "dict_append (ann_text a) a (group_spec anns) = group_spec anns @ [(ann_text a, [a])]"
    by (rule dict_append_absent)
  moreover from False have "first_seen (map ann_text (anns @ [a])) =
      first_seen (map ann_text anns) @ [ann_text a]"
    by (simp add: first_seen_snoc)
  moreover have "filter (\<lambda>b. ann_text b = ann_text a) anns = []"
  proof -
    from False have "\<And>b. b \<in> set anns \<Longrightarrow> ann_text b \<noteq> ann_text a"
      by (metis imageI set_map)
    then show ?thesis by (simp add: filter_empty_conv)
  qed
  moreover from False have "\<forall>t\<in>set (first_seen (map ann_text anns)). t \<noteq> ann_text a"
    by (metis set_first_seen)
  ultimately show ?thesis by (auto simp: group_spec_def)
qed

lemma group_by_text_eq_spec: "group_by_text anns = group_spec anns"
proof (induction anns rule: rev_induct)
  case Nil
  show ?case by (simp add: group_by_text_def group_spec_def)
next
  case (snoc a anns)
  then show ?case by (simp only: group_by_text_snoc group_spec_snoc)
qed

lemma keys_group_spec: "map fst (group_spec anns) = first_seen (map ann_text anns)"
  by (simp add: group_spec_def comp_def)

lemma mset_group_by_text: "mset (concat (map snd (group_by_text anns))) = mset anns"
proof (induction anns rule: rev_induct)
  case Nil
  show ?case by (simp add: group_by_text_def)
next
  case (snoc a anns)
  then show ?case by (simp add: group_by_text_snoc mset_dict_append)
qed

lemma group_spec_member:
  assumes "(t, grp) \<in> set (group_spec anns)"
  shows "grp = filter (\<lambda>a. ann_text a = t) anns" and "grp \<noteq> []" and "t \<in> ann_text ` set anns"
proof -
  from assms show g: "grp = filter (\<lambda>a. ann_text a = t) anns"
    by (auto simp: group_spec_def)
  from assms show t: "t \<in> ann_text ` set anns"
    by (auto simp: group_spec_def set_first_seen)
  then show "grp \<noteq> []" unfolding g by (auto simp: filter_empty_conv)
qed

text \<open>
  C6. \<^verbatim>\<open>group_by_text\<close> computes the grouping of the specification: its keys are the
  distinct texts in order of first occurrence, no text has two groups, the group of a text
  holds exactly the annotations of that text in input order and is never empty, an
  annotation lies in the group of its own text and in no other, and the groups together
  hold every annotation as often as the input does.
\<close>

theorem group_by_text_partitions:
  "group_by_text anns = group_spec anns \<and>
   map fst (group_by_text anns) = first_seen (map ann_text anns) \<and>
   distinct (map fst (group_by_text anns)) \<and>
   (\<forall>(t, grp)\<in>set (group_by_text anns). grp = filter (\<lambda>a. ann_text a = t) anns \<and> grp \<noteq> []) \<and>
   (\<forall>a\<in>set anns. \<forall>(t, grp)\<in>set (group_by_text anns). a \<in> set grp \<longleftrightarrow> t = ann_text a) \<and>
   mset (concat (map snd (group_by_text anns))) = mset anns"
proof (intro conjI)
  show "group_by_text anns = group_spec anns" by (rule group_by_text_eq_spec)
  show "map fst (group_by_text anns) = first_seen (map ann_text anns)"
    by (simp only: group_by_text_eq_spec keys_group_spec)
  show "distinct (map fst (group_by_text anns))"
    by (simp only: group_by_text_eq_spec keys_group_spec distinct_first_seen)
  show "\<forall>(t, grp)\<in>set (group_by_text anns). grp = filter (\<lambda>a. ann_text a = t) anns \<and> grp \<noteq> []"
    unfolding group_by_text_eq_spec using group_spec_member(1,2) by blast
  show "\<forall>a\<in>set anns. \<forall>(t, grp)\<in>set (group_by_text anns). a \<in> set grp \<longleftrightarrow> t = ann_text a"
    unfolding group_by_text_eq_spec using group_spec_member(1) by fastforce
  show "mset (concat (map snd (group_by_text anns))) = mset anns" by (rule mset_group_by_text)
qed

text \<open>Three annotations, two of the text x around one of the text y.\<close>

lemma sample_grouping:
  "group_by_text [accepted ''x'' ''a'' ''cat'' (9 / 10 :: rat), accepted ''y'' ''a'' ''cat'' (9 / 10),
      accepted ''x'' ''b'' ''dog'' (95 / 100)] =
   [(PyStr ''x'', [accepted ''x'' ''a'' ''cat'' (9 / 10), accepted ''x'' ''b'' ''dog'' (95 / 100)]),
    (PyStr ''y'', [accepted ''y'' ''a'' ''cat'' (9 / 10)])]"
  by (simp add: group_by_text_def accepted_def)

theorem group_by_text_partitions_witness:
  "group_by_text [accepted ''x'' ''a'' ''cat'' (9 / 10 :: rat), accepted ''y'' ''a'' ''cat'' (9 / 10),
      accepted ''x'' ''b'' ''dog'' (95 / 100)] =
   [(PyStr ''x'', [accepted ''x'' ''a'' ''cat'' (9 / 10), accepted ''x'' ''b'' ''dog'' (95 / 100)]),
    (PyStr ''y'', [accepted ''y'' ''a'' ''cat'' (9 / 10)])] \<and>
   group_spec [accepted ''x'' ''a'' ''cat'' (9 / 10 :: rat), accepted ''y'' ''a'' ''cat'' (9 / 10),
      accepted ''x'' ''b'' ''dog'' (95 / 100)] =
   [(PyStr ''x'', [accepted ''x'' ''a'' ''cat'' (9 / 10), accepted ''x'' ''b'' ''dog'' (95 / 100)]),
    (PyStr ''y'', [accepted ''y'' ''a'' ''cat'' (9 / 10)])]"
  using group_by_text_partitions [of "[accepted ''x'' ''a'' ''cat'' (9 / 10 :: rat),
      accepted ''y'' ''a'' ''cat'' (9 / 10), accepted ''x'' ''b'' ''dog'' (95 / 100)]"]
  by (simp only: sample_grouping)

section \<open>Properties of the agreement check\<close>

lemma dict_set_absent: "k \<notin> fst ` set d \<Longrightarrow> dict_set k v d = d @ [(k, v)]"
  by (induction d) auto

lemma map_filter_snoc:
  "List.map_filter f (xs @ [x]) =
     List.map_filter f xs @ (case f x of None \<Rightarrow> [] | Some y \<Rightarrow> [y])"
  by (induction xs) (auto simp: List.map_filter_simps split: option.splits)

lemma agreed_of_Some_iff:
  "agreed_of so grp = Some p \<longleftrightarrow> (\<exists>l. so (map ann_label (snd grp)) = [l] \<and> p = (fst grp, l))"
  by (auto simp: agreed_of_def split: list.splits)

lemma agreed_of_None_iff:
  "agreed_of so grp = None \<longleftrightarrow> length (so (map ann_label (snd grp))) \<noteq> 1"
  by (auto simp: agreed_of_def split: list.splits)

lemma disagreement_of_Some_iff:
  "disagreement_of so grp = Some p \<longleftrightarrow>
     length (so (map ann_label (snd grp))) \<noteq> 1 \<and> p = (fst grp, so (map ann_label (snd grp)))"
  by (auto simp: disagreement_of_def split: list.splits)

lemma disagreement_of_None_iff:
  "disagreement_of so grp = None \<longleftrightarrow> length (so (map ann_label (snd grp))) = 1"
  by (auto simp: disagreement_of_def split: list.splits)

lemma set_map_filter: "set (List.map_filter f xs) = {y. \<exists>x\<in>set xs. f x = Some y}"
  by (induction xs) (auto simp: List.map_filter_simps split: option.splits)

lemma agreement_step_eq:
  "agreement_step so (A, D) grp =
     (case agreed_of so grp of
        Some (t, l) \<Rightarrow> (dict_set t l A, D)
      | None \<Rightarrow> (A, D @ [(fst grp, so (map ann_label (snd grp)))]))"
  by (auto simp: agreement_step_def agreed_of_def Let_def split: list.splits)

text \<open>
  On a dict, the loop puts each group into one of its two results and keeps the order of
  the groups.
\<close>

lemma agreement_check_eq:
  "distinct (map fst g) \<Longrightarrow>
     apply_agreement_check so g =
       (List.map_filter (agreed_of so) g, List.map_filter (disagreement_of so) g)"
proof (induction g rule: rev_induct)
  case Nil
  show ?case by (simp add: apply_agreement_check_def List.map_filter_simps)
next
  case (snoc x g)
  then have ih: "apply_agreement_check so g =
      (List.map_filter (agreed_of so) g, List.map_filter (disagreement_of so) g)"
    and fresh: "fst x \<notin> fst ` set g"
    by simp_all
  have step: "apply_agreement_check so (g @ [x]) =
      agreement_step so (List.map_filter (agreed_of so) g, List.map_filter (disagreement_of so) g) x"
    using ih by (simp add: apply_agreement_check_def)
  show ?case
  proof (cases "agreed_of so x")
    case None
    then have "disagreement_of so x = Some (fst x, so (map ann_label (snd x)))"
      by (simp add: agreed_of_None_iff disagreement_of_Some_iff)
    with None show ?thesis
      by (simp add: step agreement_step_eq map_filter_snoc)
  next
    case (Some p)
    then obtain l where l: "so (map ann_label (snd x)) = [l]" "p = (fst x, l)"
      by (auto simp: agreed_of_Some_iff)
    then have d: "disagreement_of so x = None"
      by (simp add: disagreement_of_None_iff)
    have "fst x \<notin> fst ` set (List.map_filter (agreed_of so) g)"
      using fresh by (force simp: set_map_filter agreed_of_Some_iff)
    then have "dict_set (fst x) l (List.map_filter (agreed_of so) g) =
        List.map_filter (agreed_of so) g @ [(fst x, l)]"
      by (rule dict_set_absent)
    with Some l d show ?thesis
      by (simp add: step agreement_step_eq map_filter_snoc)
  qed
qed

lemma keys_agreed:
  "map fst (List.map_filter (agreed_of so) g) =
     map fst (filter (\<lambda>grp. length (so (map ann_label (snd grp))) = 1) g)"
proof (induction g)
  case Nil
  show ?case by (simp add: List.map_filter_simps)
next
  case (Cons x g)
  show ?case
  proof (cases "agreed_of so x")
    case None
    then have "length (so (map ann_label (snd x))) \<noteq> 1" by (simp add: agreed_of_None_iff)
    with None Cons show ?thesis by (simp add: List.map_filter_simps)
  next
    case (Some p)
    then have "length (so (map ann_label (snd x))) = 1" and "fst p = fst x"
      by (auto simp: agreed_of_Some_iff)
    with Some Cons show ?thesis by (simp add: List.map_filter_simps)
  qed
qed

lemma keys_disagreements:
  "map fst (List.map_filter (disagreement_of so) g) =
     map fst (filter (\<lambda>grp. length (so (map ann_label (snd grp))) \<noteq> 1) g)"
proof (induction g)
  case Nil
  show ?case by (simp add: List.map_filter_simps)
next
  case (Cons x g)
  show ?case
  proof (cases "disagreement_of so x")
    case None
    then have "length (so (map ann_label (snd x))) = 1" by (simp add: disagreement_of_None_iff)
    with None Cons show ?thesis by (simp add: List.map_filter_simps)
  next
    case (Some p)
    then have "length (so (map ann_label (snd x))) \<noteq> 1" and "fst p = fst x"
      by (auto simp: disagreement_of_Some_iff)
    with Some Cons show ?thesis by (simp add: List.map_filter_simps)
  qed
qed

lemma keys_filter_partition:
  assumes "distinct (map fst g)"
  shows "fst ` set (filter P g) \<union> fst ` set (filter (\<lambda>x. \<not> P x) g) = fst ` set g"
    and "fst ` set (filter P g) \<inter> fst ` set (filter (\<lambda>x. \<not> P x) g) = {}"
    and "distinct (map fst (filter P g))"
proof -
  show "fst ` set (filter P g) \<union> fst ` set (filter (\<lambda>x. \<not> P x) g) = fst ` set g"
    by auto
  show "distinct (map fst (filter P g))"
    using assms by (rule distinct_map_filter)
  show "fst ` set (filter P g) \<inter> fst ` set (filter (\<lambda>x. \<not> P x) g) = {}"
  proof (rule ccontr)
    assume "\<not> ?thesis"
    then obtain x y where x: "x \<in> set g" "P x" and y: "y \<in> set g" "\<not> P y" and "fst x = fst y"
      by auto
    with assms have "x = y" by (meson distinct_map inj_onD)
    with x y show False by simp
  qed
qed

lemma valid_set_order_length:
  "valid_set_order so \<Longrightarrow> length (so xs) = card (set xs)"
  by (metis distinct_card valid_set_order_def)

lemma agreed_member:
  assumes "distinct (map fst g)" and "(t, anns) \<in> set g"
  shows "(t, l) \<in> set (fst (apply_agreement_check so g)) \<longleftrightarrow> so (map ann_label anns) = [l]"
proof
  assume "(t, l) \<in> set (fst (apply_agreement_check so g))"
  then obtain x where x: "x \<in> set g" "agreed_of so x = Some (t, l)"
    using assms(1) by (auto simp: agreement_check_eq set_map_filter)
  then have "fst x = t" and l: "so (map ann_label (snd x)) = [l]"
    by (auto simp: agreed_of_Some_iff)
  with x(1) have "(t, snd x) \<in> set g" by (metis prod.collapse)
  with assms have "snd x = anns" by (meson eq_key_imp_eq_value)
  with l show "so (map ann_label anns) = [l]" by simp
next
  assume "so (map ann_label anns) = [l]"
  then have "agreed_of so (t, anns) = Some (t, l)" by (simp add: agreed_of_Some_iff)
  with assms show "(t, l) \<in> set (fst (apply_agreement_check so g))"
    by (auto simp: agreement_check_eq set_map_filter)
qed

lemma disagreement_member:
  assumes "distinct (map fst g)" and "(t, anns) \<in> set g"
  shows "(t, ls) \<in> set (snd (apply_agreement_check so g)) \<longleftrightarrow>
     length (so (map ann_label anns)) \<noteq> 1 \<and> ls = so (map ann_label anns)"
proof
  assume "(t, ls) \<in> set (snd (apply_agreement_check so g))"
  then obtain x where x: "x \<in> set g" "disagreement_of so x = Some (t, ls)"
    using assms(1) by (auto simp: agreement_check_eq set_map_filter)
  then have "fst x = t" and l: "length (so (map ann_label (snd x))) \<noteq> 1"
      "ls = so (map ann_label (snd x))"
    by (auto simp: disagreement_of_Some_iff)
  with x(1) have "(t, snd x) \<in> set g" by (metis prod.collapse)
  with assms have "snd x = anns" by (meson eq_key_imp_eq_value)
  with l show "length (so (map ann_label anns)) \<noteq> 1 \<and> ls = so (map ann_label anns)" by simp
next
  assume "length (so (map ann_label anns)) \<noteq> 1 \<and> ls = so (map ann_label anns)"
  then have "disagreement_of so (t, anns) = Some (t, ls)" by (simp add: disagreement_of_Some_iff)
  with assms show "(t, ls) \<in> set (snd (apply_agreement_check so g))"
    by (auto simp: agreement_check_eq set_map_filter)
qed

lemma disagreement_origin:
  assumes "distinct (map fst g)" and "(t, ls) \<in> set (snd (apply_agreement_check so g))"
  shows "\<exists>anns. (t, anns) \<in> set g \<and> length (so (map ann_label anns)) \<noteq> 1 \<and> ls = so (map ann_label anns)"
proof -
  from assms obtain x where x: "x \<in> set g" "disagreement_of so x = Some (t, ls)"
    by (auto simp: agreement_check_eq set_map_filter)
  then have "fst x = t" "length (so (map ann_label (snd x))) \<noteq> 1" "ls = so (map ann_label (snd x))"
    by (auto simp: disagreement_of_Some_iff)
  with x(1) show ?thesis by (metis prod.collapse)
qed

text \<open>
  C4. On a dict of groups, every text of the dict comes out in exactly one of the two
  results of \<^verbatim>\<open>apply_agreement_check\<close>: the two key sets together are the keys of the
  dict, they have no text in common, and neither result holds a text twice.
\<close>

theorem agreement_check_partitions_texts:
  assumes "distinct (map fst g)"
  shows "fst ` set (fst (apply_agreement_check so g)) \<union> fst ` set (snd (apply_agreement_check so g)) =
           fst ` set g \<and>
         fst ` set (fst (apply_agreement_check so g)) \<inter> fst ` set (snd (apply_agreement_check so g)) = {} \<and>
         distinct (map fst (fst (apply_agreement_check so g))) \<and>
         distinct (map fst (snd (apply_agreement_check so g)))"
proof -
  let ?P = "\<lambda>grp. length (so (map ann_label (snd grp))) = 1"
  have a: "map fst (fst (apply_agreement_check so g)) = map fst (filter ?P g)"
    using assms by (simp add: agreement_check_eq keys_agreed)
  have d: "map fst (snd (apply_agreement_check so g)) = map fst (filter (\<lambda>x. \<not> ?P x) g)"
    using assms by (simp add: agreement_check_eq keys_disagreements)
  have a': "fst ` set (fst (apply_agreement_check so g)) = fst ` set (filter ?P g)"
    using a by (metis set_map)
  have d': "fst ` set (snd (apply_agreement_check so g)) = fst ` set (filter (\<lambda>x. \<not> ?P x) g)"
    using d by (metis set_map)
  show ?thesis
    unfolding a d a' d'
    using keys_filter_partition [OF assms, of ?P] distinct_map_filter [OF assms, of "\<lambda>x. \<not> ?P x"]
    by blast
qed

text \<open>
  C5. On a dict of non-empty groups, a group comes out as an agreed sample exactly when
  its annotations carry one distinct label, and then with that label; it comes out as a
  disagreement exactly when they carry two or more, and then with the set of all its
  distinct labels; a group of one annotation agrees; and every disagreement that comes
  out carries at least two labels.
\<close>

theorem agreement_check_by_label_count:
  assumes "distinct (map fst g)" and "valid_set_order so" and "\<forall>(t, anns)\<in>set g. anns \<noteq> []"
  shows "(\<forall>(t, anns)\<in>set g.
            ((\<exists>l. (t, l) \<in> set (fst (apply_agreement_check so g))) \<longleftrightarrow>
               card (ann_label ` set anns) = 1) \<and>
            ((\<exists>ls. (t, ls) \<in> set (snd (apply_agreement_check so g))) \<longleftrightarrow>
               2 \<le> card (ann_label ` set anns)) \<and>
            (\<forall>l. (t, l) \<in> set (fst (apply_agreement_check so g)) \<longrightarrow> ann_label ` set anns = {l}) \<and>
            (\<forall>ls. (t, ls) \<in> set (snd (apply_agreement_check so g)) \<longrightarrow>
               set ls = ann_label ` set anns \<and> distinct ls) \<and>
            (length anns = 1 \<longrightarrow> (\<exists>l. (t, l) \<in> set (fst (apply_agreement_check so g))))) \<and>
         (\<forall>(t, ls)\<in>set (snd (apply_agreement_check so g)). 2 \<le> card (set ls))"
proof (intro conjI ballI)
  fix x
  assume xg: "x \<in> set g"
  obtain t anns where x: "x = (t, anns)" by (cases x)
  let ?ls = "so (map ann_label anns)"
  from assms(2) have len: "length ?ls = card (ann_label ` set anns)"
    by (simp add: valid_set_order_length)
  from assms(2) have set_ls: "set ?ls = ann_label ` set anns" and dist: "distinct ?ls"
    by (simp_all add: valid_set_order_def)
  from assms(3) xg x have "anns \<noteq> []" by auto
  then have pos: "1 \<le> card (ann_label ` set anns)"
    by (simp add: Suc_le_eq card_gt_0_iff)
  have mem_a: "\<And>l. (t, l) \<in> set (fst (apply_agreement_check so g)) \<longleftrightarrow> ?ls = [l]"
    using assms(1) xg x by (simp add: agreed_member)
  have mem_d: "\<And>ls. (t, ls) \<in> set (snd (apply_agreement_check so g)) \<longleftrightarrow>
      length ?ls \<noteq> 1 \<and> ls = ?ls"
    using assms(1) xg x by (simp add: disagreement_member)
  have one: "(\<exists>l. ?ls = [l]) \<longleftrightarrow> card (ann_label ` set anns) = 1"
    using len by (metis One_nat_def length_0_conv length_Suc_conv)
  have c1: "(\<exists>l. (t, l) \<in> set (fst (apply_agreement_check so g))) \<longleftrightarrow>
      card (ann_label ` set anns) = 1"
    by (simp only: mem_a one)
  have c2: "(\<exists>ls. (t, ls) \<in> set (snd (apply_agreement_check so g))) \<longleftrightarrow>
      2 \<le> card (ann_label ` set anns)"
    using pos len by (auto simp: mem_d)
  have c3: "\<forall>l. (t, l) \<in> set (fst (apply_agreement_check so g)) \<longrightarrow> ann_label ` set anns = {l}"
    using set_ls by (auto simp: mem_a)
  have c4: "\<forall>ls. (t, ls) \<in> set (snd (apply_agreement_check so g)) \<longrightarrow>
      set ls = ann_label ` set anns \<and> distinct ls"
    using set_ls dist by (simp add: mem_d)
  have c5: "length anns = 1 \<longrightarrow> (\<exists>l. (t, l) \<in> set (fst (apply_agreement_check so g)))"
  proof
    assume "length anns = 1"
    then obtain a where "anns = [a]" by (cases anns) auto
    then have "card (ann_label ` set anns) = 1" by simp
    with c1 show "\<exists>l. (t, l) \<in> set (fst (apply_agreement_check so g))" by simp
  qed
  from c1 c2 c3 c4 c5 show "case x of (t, anns) \<Rightarrow>
      ((\<exists>l. (t, l) \<in> set (fst (apply_agreement_check so g))) \<longleftrightarrow> card (ann_label ` set anns) = 1) \<and>
      ((\<exists>ls. (t, ls) \<in> set (snd (apply_agreement_check so g))) \<longleftrightarrow> 2 \<le> card (ann_label ` set anns)) \<and>
      (\<forall>l. (t, l) \<in> set (fst (apply_agreement_check so g)) \<longrightarrow> ann_label ` set anns = {l}) \<and>
      (\<forall>ls. (t, ls) \<in> set (snd (apply_agreement_check so g)) \<longrightarrow>
         set ls = ann_label ` set anns \<and> distinct ls) \<and>
      (length anns = 1 \<longrightarrow> (\<exists>l. (t, l) \<in> set (fst (apply_agreement_check so g))))"
    unfolding x by simp
next
  fix d
  assume dd: "d \<in> set (snd (apply_agreement_check so g))"
  obtain t ls where d: "d = (t, ls)" by (cases d)
  with dd assms(1) obtain anns where g: "(t, anns) \<in> set g"
    and ne: "length (so (map ann_label anns)) \<noteq> 1" and ls: "ls = so (map ann_label anns)"
    by (blast dest: disagreement_origin)
  from assms(3) g have "anns \<noteq> []" by auto
  then have "1 \<le> card (ann_label ` set anns)"
    by (simp add: Suc_le_eq card_gt_0_iff)
  moreover from assms(2) have "length (so (map ann_label anns)) = card (ann_label ` set anns)"
    by (simp add: valid_set_order_length)
  moreover from assms(2) have "set (so (map ann_label anns)) = ann_label ` set anns"
    by (simp add: valid_set_order_def)
  ultimately have "2 \<le> card (set ls)" using ne ls by simp
  then show "case d of (t, ls) \<Rightarrow> 2 \<le> card (set ls)" unfolding d by simp
qed

lemma valid_set_order_remdups: "valid_set_order remdups"
  by (simp add: valid_set_order_def)

lemma valid_set_order_rev_remdups: "valid_set_order (\<lambda>xs. rev (remdups xs))"
  by (simp add: valid_set_order_def)

lemma sample_agreement:
  "apply_agreement_check remdups sample_groups =
     ([(PyStr ''y'', PyStr ''cat'')], [(PyStr ''x'', [PyStr ''cat'', PyStr ''dog''])])"
  by (simp add: apply_agreement_check_def agreement_step_def sample_groups_def accepted_def)

theorem agreement_check_partitions_texts_witness:
  "distinct (map fst sample_groups) \<and>
   apply_agreement_check remdups sample_groups =
     ([(PyStr ''y'', PyStr ''cat'')], [(PyStr ''x'', [PyStr ''cat'', PyStr ''dog''])]) \<and>
   fst ` set (fst (apply_agreement_check remdups sample_groups)) \<union>
     fst ` set (snd (apply_agreement_check remdups sample_groups)) = fst ` set sample_groups \<and>
   fst ` set (fst (apply_agreement_check remdups sample_groups)) \<inter>
     fst ` set (snd (apply_agreement_check remdups sample_groups)) = {}"
proof -
  have h: "distinct (map fst sample_groups)"
    by (simp add: sample_groups_def)
  note t = agreement_check_partitions_texts [OF h, of remdups]
  from t have a: "fst ` set (fst (apply_agreement_check remdups sample_groups)) \<union>
     fst ` set (snd (apply_agreement_check remdups sample_groups)) = fst ` set sample_groups"
    by (rule conjunct1)
  from t have b: "fst ` set (fst (apply_agreement_check remdups sample_groups)) \<inter>
     fst ` set (snd (apply_agreement_check remdups sample_groups)) = {}"
    by (rule conjunct1 [OF conjunct2])
  show ?thesis by (intro conjI h sample_agreement a b)
qed

theorem agreement_check_by_label_count_witness:
  "distinct (map fst sample_groups) \<and> valid_set_order remdups \<and>
   list_all (\<lambda>grp. snd grp \<noteq> []) sample_groups \<and>
   apply_agreement_check remdups sample_groups =
     ([(PyStr ''y'', PyStr ''cat'')], [(PyStr ''x'', [PyStr ''cat'', PyStr ''dog''])]) \<and>
   card (ann_label ` set (snd (sample_groups ! 0))) = 2 \<and>
   card (ann_label ` set (snd (sample_groups ! 1))) = 1 \<and>
   2 \<le> card (set [PyStr ''cat'', PyStr ''dog''])"
proof -
  have h1: "distinct (map fst sample_groups)"
    by (simp add: sample_groups_def)
  have h3: "\<forall>(t, anns)\<in>set sample_groups. anns \<noteq> []"
    by (simp add: sample_groups_def)
  note t = agreement_check_by_label_count [OF h1 valid_set_order_remdups h3]
  from t have "\<forall>(t, ls)\<in>set (snd (apply_agreement_check remdups sample_groups)). 2 \<le> card (set ls)"
    by (rule conjunct2)
  then have two: "2 \<le> card (set [PyStr ''cat'', PyStr ''dog''])"
    by (simp add: sample_agreement)
  have ne: "list_all (\<lambda>grp. snd grp \<noteq> []) sample_groups"
    by (simp add: sample_groups_def)
  have c2: "card (ann_label ` set (snd (sample_groups ! 0))) = 2"
    by (simp add: sample_groups_def accepted_def)
  have c1: "card (ann_label ` set (snd (sample_groups ! 1))) = 1"
    by (simp add: sample_groups_def accepted_def)
  show ?thesis
    by (intro conjI h1 valid_set_order_remdups ne sample_agreement c2 c1 two)
qed

section \<open>Properties of the output\<close>

lemma foldl_append_concat:
  "foldl (\<lambda>out x. out @ f x) acc xs = acc @ concat (map f xs)"
  by (induction xs arbitrary: acc) simp_all

lemma write_clean_eq:
  "write_clean agreed = concat (map (\<lambda>item. clean_line item @ [newline]) agreed)"
  by (simp add: write_clean_def clean_line_def foldl_append_concat)

lemma of_char_hex_digit:
  "n < 16 \<Longrightarrow> (of_char (hex_digit n) :: nat) = (if n < 10 then 48 + n else 87 + n)"
  by (simp add: hex_digit_def)

lemma hex_digit_not_newline: "n < 16 \<Longrightarrow> hex_digit n \<noteq> CHR 0x0A"
proof
  assume n: "n < 16" and "hex_digit n = CHR 0x0A"
  then have "(of_char (hex_digit n) :: nat) = of_char (CHR 0x0A)" by simp
  with n show False by (simp add: of_char_hex_digit split: if_splits)
qed

lemma newline_notin_json_escape: "newline \<notin> set (json_escape c)"
proof -
  have "(of_char c :: nat) mod 256 = of_char c" by (rule of_char_mod_256)
  then have "(of_char c :: nat) < 256" by (metis mod_less_divisor zero_less_numeral)
  then have "(of_char c :: nat) div 16 < 16" by arith
  then have "hex_digit ((of_char c :: nat) div 16) \<noteq> CHR 0x0A"
    by (rule hex_digit_not_newline)
  moreover have "hex_digit ((of_char c :: nat) mod 16) \<noteq> CHR 0x0A"
    by (rule hex_digit_not_newline) simp
  ultimately show ?thesis
    by (simp add: json_escape_def newline_def backslash_def dquote_def)
qed

lemma newline_notin_json_value: "newline \<notin> set (json_value v)"
proof (cases v)
  case (PyStr s)
  have "newline \<notin> set (concat (map json_escape s))"
    by (induction s) (simp_all add: newline_notin_json_escape)
  with PyStr show ?thesis by (simp add: json_string_def newline_def dquote_def)
next
  case PyNone
  then show ?thesis by (simp add: newline_def)
qed

lemma newline_notin_clean_line: "newline \<notin> set (clean_line item)"
proof -
  have "newline \<notin> set (json_value (fst item))" "newline \<notin> set (json_value (snd item))"
    by (rule newline_notin_json_value)+
  then show ?thesis
    by (simp add: clean_line_def json_dumps_record_def) (simp add: newline_def dquote_def)
qed

lemma split_lines_line:
  "newline \<notin> set l \<Longrightarrow> split_lines cur (l @ newline # rest) = (cur @ l) # split_lines [] rest"
  by (induction l arbitrary: cur) auto

text \<open>A file written as one newline-terminated record after another has the records as its lines.\<close>

lemma lines_of_records:
  "\<forall>x\<in>set xs. newline \<notin> set (f x) \<Longrightarrow> lines_of (concat (map (\<lambda>x. f x @ [newline]) xs)) = map f xs"
proof (induction xs)
  case Nil
  show ?case by (simp add: lines_of_def)
next
  case (Cons x xs)
  then have "newline \<notin> set (f x)" and ih: "split_lines [] (concat (map (\<lambda>x. f x @ [newline]) xs)) = map f xs"
    by (simp_all add: lines_of_def)
  then show ?case by (simp add: lines_of_def split_lines_line)
qed

lemma the_strs_map_PyStr: "the_strs (map PyStr ss) = Some ss"
  by (induction ss) simp_all

lemma the_strs_Some_iff: "the_strs vs = Some ss \<longleftrightarrow> vs = map PyStr ss"
proof
  show "the_strs vs = Some ss \<Longrightarrow> vs = map PyStr ss"
  proof (induction vs arbitrary: ss)
    case Nil
    then show ?case by simp
  next
    case (Cons v vs)
    then show ?case by (cases v) (auto split: option.splits)
  qed
next
  show "vs = map PyStr ss \<Longrightarrow> the_strs vs = Some ss"
    by (simp add: the_strs_map_PyStr)
qed

lemma the_strs_None_iff: "the_strs vs = None \<longleftrightarrow> PyNone \<in> set vs"
proof (induction vs)
  case Nil
  show ?case by simp
next
  case (Cons v vs)
  then show ?case by (cases v) (auto split: option.splits)
qed

lemma map_py_str_comp: "map (py_str \<circ> PyStr) ss = ss"
  by (induction ss) simp_all

lemma sort_short: "length xs \<le> 1 \<Longrightarrow> sort xs = xs"
  by (cases xs) (auto simp: length_Suc_conv)

text \<open>
  \<^verbatim>\<open>", ".join(sorted(labels))\<close>: the sorted strings joined when every label is a string,
  TypeError as soon as one is \<^verbatim>\<open>None\<close>.
\<close>

lemma label_list_eq:
  "label_list labels =
     (if PyNone \<in> set labels then Inl TypeError
      else Inr (join_with '', '' (sort (map py_str labels))))"
proof (cases "the_strs labels")
  case None
  then have "PyNone \<in> set labels" by (simp add: the_strs_None_iff)
  with None show ?thesis by (simp add: label_list_def py_sorted_def py_join_def)
next
  case (Some ss)
  then have l: "labels = map PyStr ss" by (simp add: the_strs_Some_iff)
  then have n: "PyNone \<notin> set labels" by auto
  have s: "the_strs (map PyStr (sort ss)) = Some (sort ss)" by (simp add: the_strs_Some_iff)
  show ?thesis
  proof (cases "length labels \<le> 1")
    case True
    with l have "sort ss = ss" by (simp add: sort_short)
    with True Some n l show ?thesis
      by (simp add: label_list_def py_sorted_def py_join_def map_py_str_comp)
  next
    case False
    with Some n l s show ?thesis
      by (simp add: label_list_def py_sorted_def py_join_def map_py_str_comp)
  qed
qed

text \<open>
  The log holds the entries of the disagreements before the first one with a \<^verbatim>\<open>None\<close>
  label, and the run raises TypeError exactly when there is such a one.
\<close>

lemma write_log_eq:
  "write_log ds out =
     (out @ concat (map (\<lambda>d. disagreement_line d @ [newline])
                     (takeWhile (\<lambda>d. PyNone \<notin> set (snd d)) ds)),
      if \<forall>d\<in>set ds. PyNone \<notin> set (snd d) then None else Some TypeError)"
proof (induction ds arbitrary: out)
  case Nil
  show ?case by simp
next
  case (Cons d ds)
  obtain t labels where d: "d = (t, labels)" by (cases d)
  show ?case
  proof (cases "PyNone \<in> set labels")
    case True
    then show ?thesis by (simp add: d label_list_eq)
  next
    case False
    then have "write_log (d # ds) out =
        write_log ds (out @ disagreement_line d @ [newline])"
      by (simp add: d label_list_eq disagreement_line_def)
    with False show ?thesis by (simp add: Cons.IH d)
  qed
qed

lemma write_log_strings:
  assumes "\<forall>d\<in>set ds. PyNone \<notin> set (snd d)"
  shows "write_log ds out = (out @ concat (map (\<lambda>d. disagreement_line d @ [newline]) ds), None)"
proof -
  from assms have tw: "takeWhile (\<lambda>d. PyNone \<notin> set (snd d)) ds = ds"
    by (simp add: takeWhile_eq_all_conv)
  show ?thesis unfolding write_log_eq tw using assms by simp
qed

lemma newline_notin_join_with:
  "\<forall>s\<in>set ss. newline \<notin> set s \<Longrightarrow> newline \<notin> set sep \<Longrightarrow> newline \<notin> set (join_with sep ss)"
  by (induction sep ss rule: join_with.induct) simp_all

lemma newline_notin_disagreement_line:
  assumes "newline \<notin> set (py_str (fst d))" and "\<forall>l\<in>set (snd d). newline \<notin> set (py_str l)"
  shows "newline \<notin> set (disagreement_line d)"
proof -
  from assms(2) have "\<forall>s\<in>set (sort (map py_str (snd d))). newline \<notin> set s" by simp
  moreover have "newline \<notin> set '', ''" by (simp add: newline_def)
  ultimately have "newline \<notin> set (join_with '', '' (sort (map py_str (snd d))))"
    by (rule newline_notin_join_with)
  with assms(1) show ?thesis
    by (simp add: disagreement_line_def) (simp add: newline_def)
qed

lemma sort_distinct_strings:
  assumes "distinct ls" and "PyNone \<notin> set ls"
  shows "sort (map py_str ls) = sorted_list_of_set (py_str ` set ls)"
proof -
  have "inj_on py_str (set ls)"
  proof (rule inj_onI)
    fix a b
    assume "a \<in> set ls" "b \<in> set ls" "py_str a = py_str b"
    with assms(2) show "a = b" by (cases a; cases b) auto
  qed
  with assms(1) have "distinct (map py_str ls)" by (simp add: distinct_map)
  then have "sort (map py_str ls) = sort (remdups (map py_str ls))"
    by (simp only: distinct_remdups_id)
  also have "\<dots> = sorted_list_of_set (set (map py_str ls))"
    by (simp only: sorted_list_of_set_sort_remdups)
  finally show ?thesis by simp
qed

text \<open>
  C7, as the code has it. The report is one newline-terminated entry per disagreement,
  in order, of the form \<^verbatim>\<open>TEXT: <text> | LABELS: <labels>\<close> with the distinct labels sorted
  and joined by comma and space, for the disagreements before the first one that has a
  \<^verbatim>\<open>None\<close> label; the writer raises TypeError exactly when there is such a one. So when
  every disagreement passed to the writer has string labels, nothing is raised and every
  one of them has its entry; and when no text and no label of these holds a line break,
  the entries are exactly the lines of the report.
\<close>

theorem disagreement_report_entries:
  "disagreements_file (write_outputs agreed dis) =
     concat (map (\<lambda>d. disagreement_line d @ [newline])
               (takeWhile (\<lambda>d. PyNone \<notin> set (snd d)) dis)) \<and>
   raised (write_outputs agreed dis) =
     (if \<forall>d\<in>set dis. PyNone \<notin> set (snd d) then None else Some TypeError) \<and>
   ((\<forall>d\<in>set (takeWhile (\<lambda>d. PyNone \<notin> set (snd d)) dis).
        newline \<notin> set (py_str (fst d)) \<and> (\<forall>l\<in>set (snd d). newline \<notin> set (py_str l))) \<longrightarrow>
      lines_of (disagreements_file (write_outputs agreed dis)) =
        map disagreement_line (takeWhile (\<lambda>d. PyNone \<notin> set (snd d)) dis)) \<and>
   ((\<forall>d\<in>set dis. PyNone \<notin> set (snd d)) \<longrightarrow>
      raised (write_outputs agreed dis) = None \<and>
      disagreements_file (write_outputs agreed dis) =
        concat (map (\<lambda>d. disagreement_line d @ [newline]) dis) \<and>
      ((\<forall>d\<in>set dis. newline \<notin> set (py_str (fst d)) \<and> (\<forall>l\<in>set (snd d). newline \<notin> set (py_str l))) \<longrightarrow>
         lines_of (disagreements_file (write_outputs agreed dis)) = map disagreement_line dis)) \<and>
   (\<forall>d\<in>set dis. PyNone \<notin> set (snd d) \<and> distinct (snd d) \<longrightarrow>
      disagreement_line d =
        ''TEXT: '' @ py_str (fst d) @ '' | LABELS: '' @
        join_with '', '' (sorted_list_of_set (py_str ` set (snd d))))"
proof (intro conjI)
  let ?ok = "\<lambda>d. PyNone \<notin> set (snd d)"
  let ?nonl = "\<lambda>d. newline \<notin> set (py_str (fst d)) \<and> (\<forall>l\<in>set (snd d). newline \<notin> set (py_str l))"
  show f: "disagreements_file (write_outputs agreed dis) =
      concat (map (\<lambda>d. disagreement_line d @ [newline]) (takeWhile ?ok dis))"
    by (simp add: write_outputs_def write_log_eq)
  show r: "raised (write_outputs agreed dis) =
      (if \<forall>d\<in>set dis. ?ok d then None else Some TypeError)"
    by (simp add: write_outputs_def write_log_eq)
  show p: "(\<forall>d\<in>set (takeWhile ?ok dis). ?nonl d) \<longrightarrow>
      lines_of (disagreements_file (write_outputs agreed dis)) =
        map disagreement_line (takeWhile ?ok dis)"
  proof
    assume "\<forall>d\<in>set (takeWhile ?ok dis). ?nonl d"
    then have "\<forall>d\<in>set (takeWhile ?ok dis). newline \<notin> set (disagreement_line d)"
      by (simp add: newline_notin_disagreement_line)
    then show "lines_of (disagreements_file (write_outputs agreed dis)) =
        map disagreement_line (takeWhile ?ok dis)"
      unfolding f by (rule lines_of_records)
  qed
  show "(\<forall>d\<in>set dis. ?ok d) \<longrightarrow>
      raised (write_outputs agreed dis) = None \<and>
      disagreements_file (write_outputs agreed dis) =
        concat (map (\<lambda>d. disagreement_line d @ [newline]) dis) \<and>
      ((\<forall>d\<in>set dis. ?nonl d) \<longrightarrow>
         lines_of (disagreements_file (write_outputs agreed dis)) = map disagreement_line dis)"
  proof
    assume all: "\<forall>d\<in>set dis. ?ok d"
    then have tw: "takeWhile ?ok dis = dis" by (simp add: takeWhile_eq_all_conv)
    from all r have 1: "raised (write_outputs agreed dis) = None" by simp
    from f have 2: "disagreements_file (write_outputs agreed dis) =
        concat (map (\<lambda>d. disagreement_line d @ [newline]) dis)"
      by (simp only: tw)
    from p have 3: "(\<forall>d\<in>set dis. ?nonl d) \<longrightarrow>
         lines_of (disagreements_file (write_outputs agreed dis)) = map disagreement_line dis"
      by (simp only: tw)
    from 1 2 3 show "raised (write_outputs agreed dis) = None \<and>
      disagreements_file (write_outputs agreed dis) =
        concat (map (\<lambda>d. disagreement_line d @ [newline]) dis) \<and>
      ((\<forall>d\<in>set dis. ?nonl d) \<longrightarrow>
         lines_of (disagreements_file (write_outputs agreed dis)) = map disagreement_line dis)"
      by (intro conjI)
  qed
  show "\<forall>d\<in>set dis. ?ok d \<and> distinct (snd d) \<longrightarrow>
      disagreement_line d =
        ''TEXT: '' @ py_str (fst d) @ '' | LABELS: '' @
        join_with '', '' (sorted_list_of_set (py_str ` set (snd d)))"
  proof (intro ballI impI)
    fix d
    assume "d \<in> set dis" and "?ok d \<and> distinct (snd d)"
    then have "sort (map py_str (snd d)) = sorted_list_of_set (py_str ` set (snd d))"
      by (simp add: sort_distinct_strings)
    then show "disagreement_line d =
        ''TEXT: '' @ py_str (fst d) @ '' | LABELS: '' @
        join_with '', '' (sorted_list_of_set (py_str ` set (snd d)))"
      by (simp add: disagreement_line_def)
  qed
qed

text \<open>
  The disagreement of the specification's scenario, the text x with the labels dog and
  cat; and two disagreements of which the first has a \<^verbatim>\<open>None\<close> label.
\<close>

lemma sample_report_line:
  "disagreement_line (PyStr ''x'', [PyStr ''dog'', PyStr ''cat'']) = ''TEXT: x | LABELS: cat, dog''"
  by code_simp

lemma sample_mixed_report:
  "write_outputs [] [(PyStr ''bad'', [PyStr ''a'', PyNone]), (PyStr ''late'', [PyStr ''d'', PyStr ''c''])] =
     \<lparr>clean_file = [], disagreements_file = [], raised = Some TypeError\<rparr>"
  by code_simp

theorem disagreement_report_entries_witness:
  "list_all (\<lambda>d. PyNone \<notin> set (snd d)) [(PyStr ''x'', [PyStr ''dog'', PyStr ''cat''])] \<and>
   raised (write_outputs [] [(PyStr ''x'', [PyStr ''dog'', PyStr ''cat''])]) = None \<and>
   disagreements_file (write_outputs [] [(PyStr ''x'', [PyStr ''dog'', PyStr ''cat''])]) =
     ''TEXT: x | LABELS: cat, dog'' @ [newline] \<and>
   lines_of (disagreements_file (write_outputs [] [(PyStr ''x'', [PyStr ''dog'', PyStr ''cat''])])) =
     [''TEXT: x | LABELS: cat, dog''] \<and>
   write_outputs [] [(PyStr ''bad'', [PyStr ''a'', PyNone]), (PyStr ''late'', [PyStr ''d'', PyStr ''c''])] =
     \<lparr>clean_file = [], disagreements_file = [], raised = Some TypeError\<rparr>"
proof -
  let ?dis = "[(PyStr ''x'', [PyStr ''dog'', PyStr ''cat''])]"
  have h: "\<forall>d\<in>set ?dis. PyNone \<notin> set (snd d)" by simp
  have nl: "\<forall>d\<in>set ?dis. newline \<notin> set (py_str (fst d)) \<and> (\<forall>l\<in>set (snd d). newline \<notin> set (py_str l))"
    by (simp add: newline_def)
  note t = disagreement_report_entries [of "[]" ?dis]
  from t have "(\<forall>d\<in>set ?dis. PyNone \<notin> set (snd d)) \<longrightarrow>
      raised (write_outputs [] ?dis) = None \<and>
      disagreements_file (write_outputs [] ?dis) =
        concat (map (\<lambda>d. disagreement_line d @ [newline]) ?dis) \<and>
      ((\<forall>d\<in>set ?dis. newline \<notin> set (py_str (fst d)) \<and> (\<forall>l\<in>set (snd d). newline \<notin> set (py_str l))) \<longrightarrow>
         lines_of (disagreements_file (write_outputs [] ?dis)) = map disagreement_line ?dis)"
    by (rule conjunct1 [OF conjunct2 [OF conjunct2 [OF conjunct2]]])
  with h nl have r: "raised (write_outputs [] ?dis) = None"
    and f: "disagreements_file (write_outputs [] ?dis) =
      concat (map (\<lambda>d. disagreement_line d @ [newline]) ?dis)"
    and l: "lines_of (disagreements_file (write_outputs [] ?dis)) = map disagreement_line ?dis"
    by blast+
  have a: "list_all (\<lambda>d. PyNone \<notin> set (snd d)) ?dis" by simp
  from f have f': "disagreements_file (write_outputs [] ?dis) = ''TEXT: x | LABELS: cat, dog'' @ [newline]"
    by (simp add: sample_report_line)
  from l have l': "lines_of (disagreements_file (write_outputs [] ?dis)) = [''TEXT: x | LABELS: cat, dog'']"
    by (simp add: sample_report_line)
  show ?thesis by (intro conjI a r f' l' sample_mixed_report)
qed

text \<open>
  C7 as stated fails on a text that holds a line break: the entry of the disagreement is
  two lines of the report, and neither is a line of the stated form for that text.
\<close>

theorem disagreement_report_line_break_counterexample:
  "raised (write_outputs [] [(PyStr [CHR ''a'', newline, CHR ''b''], [PyStr ''dog'', PyStr ''cat''])]) = None \<and>
   lines_of (disagreements_file
      (write_outputs [] [(PyStr [CHR ''a'', newline, CHR ''b''], [PyStr ''dog'', PyStr ''cat''])])) =
     [''TEXT: a'', ''b | LABELS: cat, dog'']"
  by code_simp

lemma unhex_hex_digit: "n < 16 \<Longrightarrow> unhex (hex_digit n) = Some n"
  by (auto simp: unhex_def hex_digit_def Let_def)

lemma of_char_less_256: "(of_char c :: nat) < 256"
proof -
  have "(of_char c :: nat) mod 256 = of_char c" by (rule of_char_mod_256)
  then show ?thesis by (metis mod_less_divisor zero_less_numeral)
qed

lemma char_of_div_mod: "char_of (16 * ((of_char c :: nat) div 16) + of_char c mod 16) = c"
  by simp

lemma read_string_body_escape:
  "read_string_body (json_escape c @ rest) = cons_result c (read_string_body rest)"
proof -
  have lt: "(of_char c :: nat) div 16 < 16" using of_char_less_256 [of c] by arith
  have hi: "unhex (hex_digit ((of_char c :: nat) div 16)) = Some ((of_char c :: nat) div 16)"
    using lt by (rule unhex_hex_digit)
  have lo: "unhex (hex_digit ((of_char c :: nat) mod 16)) = Some ((of_char c :: nat) mod 16)"
    by (rule unhex_hex_digit) simp
  show ?thesis
    by (simp add: json_escape_def unescape_simple_def dquote_def backslash_def hi lo char_of_div_mod)
qed

lemma read_string_body_json:
  "read_string_body (concat (map json_escape s) @ dquote # rest) = Some (s, rest)"
proof (induction s)
  case Nil
  show ?case by simp
next
  case (Cons c s)
  have "read_string_body (concat (map json_escape (c # s)) @ dquote # rest) =
      read_string_body (json_escape c @ (concat (map json_escape s) @ dquote # rest))"
    by simp
  also have "\<dots> = cons_result c (read_string_body (concat (map json_escape s) @ dquote # rest))"
    by (rule read_string_body_escape)
  also have "\<dots> = Some (c # s, rest)"
    by (simp add: Cons.IH cons_result_def)
  finally show ?case .
qed

lemma expect_prefix: "expect p (p @ s) = Some s"
  by (simp add: expect_def)

lemma read_value_json: "read_value (json_value v @ rest) = Some (v, rest)"
proof (cases v)
  case (PyStr s)
  have "expect ''null'' (json_string s @ rest) = None"
    by (simp add: expect_def json_string_def dquote_def)
  moreover have "json_string s @ rest = dquote # (concat (map json_escape s) @ dquote # rest)"
    by (simp add: json_string_def)
  ultimately show ?thesis
    using PyStr by (simp add: read_value_def read_string_body_json)
next
  case PyNone
  have "expect ''null'' (''null'' @ rest) = Some rest" by (rule expect_prefix)
  with PyNone show ?thesis by (simp add: read_value_def)
qed

text \<open>A line of the clean file reads back as the record it was written from.\<close>

lemma parse_record_clean_line: "parse_record (clean_line (t, l)) = Some (t, l)"
proof -
  let ?p1 = "[CHR ''{'', dquote] @ ''text'' @ [dquote] @ '': ''"
  let ?p2 = "'', '' @ [dquote] @ ''label'' @ [dquote] @ '': ''"
  have c: "clean_line (t, l) = ?p1 @ (json_value t @ (?p2 @ (json_value l @ [CHR ''}''])))"
    by (simp add: clean_line_def json_dumps_record_def)
  have 1: "expect ?p1 (clean_line (t, l)) = Some (json_value t @ (?p2 @ (json_value l @ [CHR ''}''])))"
    unfolding c by (rule expect_prefix)
  have 2: "read_value (json_value t @ (?p2 @ (json_value l @ [CHR ''}'']))) =
      Some (t, ?p2 @ (json_value l @ [CHR ''}'']))"
    by (rule read_value_json)
  have 3: "expect ?p2 (?p2 @ (json_value l @ [CHR ''}''])) = Some (json_value l @ [CHR ''}''])"
    by (rule expect_prefix)
  have 4: "read_value (json_value l @ [CHR ''}'']) = Some (l, [CHR ''}''])"
    by (rule read_value_json)
  show ?thesis
    unfolding parse_record_def 1 by (simp only: 2 3 4 option.case prod.case) simp
qed

text \<open>
  C8. The clean file is one newline-terminated JSON record per agreed sample, in the order
  of the samples; a record holds no line break, so the lines of the file are exactly
  these records, one per sample; and each line reads back as an object of exactly the
  two fields \<^verbatim>\<open>text\<close> and \<^verbatim>\<open>label\<close> with the values of its sample.
\<close>

theorem clean_file_one_record_per_sample:
  "clean_file (write_outputs agreed dis) = concat (map (\<lambda>item. clean_line item @ [newline]) agreed) \<and>
   lines_of (clean_file (write_outputs agreed dis)) = map clean_line agreed \<and>
   map parse_record (lines_of (clean_file (write_outputs agreed dis))) = map Some agreed"
proof -
  have f: "clean_file (write_outputs agreed dis) =
      concat (map (\<lambda>item. clean_line item @ [newline]) agreed)"
    by (simp add: write_outputs_def write_clean_eq Let_def)
  have "\<forall>item\<in>set agreed. newline \<notin> set (clean_line item)"
    by (simp add: newline_notin_clean_line)
  then have l: "lines_of (clean_file (write_outputs agreed dis)) = map clean_line agreed"
    unfolding f by (rule lines_of_records)
  have "map parse_record (map clean_line agreed) = map Some agreed"
    by (induction agreed) (auto simp: parse_record_clean_line)
  with f l show ?thesis by simp
qed

section \<open>Properties of the whole run\<close>

lemma valid_set_orders_mset:
  assumes "valid_set_order so1" and "valid_set_order so2"
  shows "mset (so1 xs) = mset (so2 xs)"
proof -
  from assms have "distinct (so1 xs)" "distinct (so2 xs)" "set (so1 xs) = set (so2 xs)"
    by (simp_all add: valid_set_order_def)
  then show ?thesis by (simp only: set_eq_iff_mset_eq_distinct)
qed

lemma sort_mset_cong: "mset xs = mset ys \<Longrightarrow> sort xs = sort ys"
  by (rule properties_for_sort) simp_all

text \<open>\<^verbatim>\<open>", ".join(sorted(labels))\<close> does not depend on the order the set iterates in.\<close>

lemma label_list_mset_cong:
  assumes "mset a = mset b"
  shows "label_list a = label_list b"
proof -
  from assms have "set a = set b" by (rule mset_eq_setD)
  then have n: "PyNone \<in> set a \<longleftrightarrow> PyNone \<in> set b" by (rule arg_cong)
  from assms have "mset (map py_str a) = mset (map py_str b)" by simp
  then have s: "sort (map py_str a) = sort (map py_str b)" by (rule sort_mset_cong)
  show ?thesis unfolding label_list_eq n s ..
qed

lemma write_log_cong:
  "list_all2 (\<lambda>d1 d2. fst d1 = fst d2 \<and> mset (snd d1) = mset (snd d2)) ds1 ds2 \<Longrightarrow>
     write_log ds1 out = write_log ds2 out"
proof (induction ds1 arbitrary: ds2 out)
  case Nil
  then show ?case by simp
next
  case (Cons d1 ds1)
  from Cons.prems obtain d2 ds2' where ds2: "ds2 = d2 # ds2'"
    and rel: "fst d1 = fst d2" "mset (snd d1) = mset (snd d2)"
    and rest: "list_all2 (\<lambda>d1 d2. fst d1 = fst d2 \<and> mset (snd d1) = mset (snd d2)) ds1 ds2'"
    by (auto simp: list_all2_Cons1)
  obtain t l1 where d1: "d1 = (t, l1)" by (cases d1)
  with rel obtain l2 where d2: "d2 = (t, l2)" and m: "mset l1 = mset l2" by (cases d2) auto
  from m have ll: "label_list l1 = label_list l2" by (rule label_list_mset_cong)
  show ?case
  proof (cases "label_list l2")
    case (Inl e)
    with ll show ?thesis by (simp add: ds2 d1 d2)
  next
    case (Inr s)
    with ll Cons.IH [OF rest] show ?thesis by (simp add: ds2 d1 d2)
  qed
qed

lemma singleton_mset_cong: "mset xs = mset ys \<Longrightarrow> xs = [l] \<Longrightarrow> ys = [l]"
  by (cases ys) auto

lemma agreed_of_order_cong:
  assumes "valid_set_order so1" and "valid_set_order so2"
  shows "agreed_of so1 grp = agreed_of so2 grp"
proof -
  have m: "mset (so1 (map ann_label (snd grp))) = mset (so2 (map ann_label (snd grp)))"
    using assms by (rule valid_set_orders_mset)
  show ?thesis
  proof (cases "agreed_of so1 grp")
    case None
    then have "length (so1 (map ann_label (snd grp))) \<noteq> 1" by (simp add: agreed_of_None_iff)
    moreover from m have "length (so1 (map ann_label (snd grp))) = length (so2 (map ann_label (snd grp)))"
      by (rule mset_eq_length)
    ultimately have "length (so2 (map ann_label (snd grp))) \<noteq> 1" by simp
    then have "agreed_of so2 grp = None" by (simp add: agreed_of_None_iff)
    with None show ?thesis by simp
  next
    case (Some p)
    then obtain l where l: "so1 (map ann_label (snd grp)) = [l]" "p = (fst grp, l)"
      by (auto simp: agreed_of_Some_iff)
    with m have "so2 (map ann_label (snd grp)) = [l]" by (blast intro: singleton_mset_cong)
    with l(2) have "agreed_of so2 grp = Some p" by (simp add: agreed_of_Some_iff)
    with Some show ?thesis by simp
  qed
qed

lemma disagreements_order_cong:
  assumes "valid_set_order so1" and "valid_set_order so2"
  shows "list_all2 (\<lambda>d1 d2. fst d1 = fst d2 \<and> mset (snd d1) = mset (snd d2))
           (List.map_filter (disagreement_of so1) g) (List.map_filter (disagreement_of so2) g)"
proof (induction g)
  case Nil
  show ?case by (simp add: List.map_filter_simps)
next
  case (Cons x g)
  have m: "mset (so1 (map ann_label (snd x))) = mset (so2 (map ann_label (snd x)))"
    using assms by (rule valid_set_orders_mset)
  then have len: "length (so1 (map ann_label (snd x))) = length (so2 (map ann_label (snd x)))"
    by (rule mset_eq_length)
  show ?case
  proof (cases "length (so1 (map ann_label (snd x))) = 1")
    case True
    with len have "disagreement_of so1 x = None" "disagreement_of so2 x = None"
      by (simp_all add: disagreement_of_None_iff)
    with Cons show ?thesis by (simp add: List.map_filter_simps)
  next
    case False
    with len have "disagreement_of so1 x = Some (fst x, so1 (map ann_label (snd x)))"
      "disagreement_of so2 x = Some (fst x, so2 (map ann_label (snd x)))"
      by (simp_all add: disagreement_of_Some_iff)
    with Cons m show ?thesis by (simp add: List.map_filter_simps)
  qed
qed

lemma distinct_keys_group_by_text: "distinct (map fst (group_by_text anns))"
  by (simp only: group_by_text_eq_spec keys_group_spec distinct_first_seen)

text \<open>The two files do not depend on the order in which the label sets iterate.\<close>

lemma outputs_order_cong:
  assumes "valid_set_order so1" and "valid_set_order so2" and "distinct (map fst g)"
  shows "write_outputs (fst (apply_agreement_check so1 g)) (snd (apply_agreement_check so1 g)) =
         write_outputs (fst (apply_agreement_check so2 g)) (snd (apply_agreement_check so2 g))"
proof -
  note eq1 = agreement_check_eq [OF assms(3), of so1]
  note eq2 = agreement_check_eq [OF assms(3), of so2]
  have "agreed_of so1 = agreed_of so2"
    using assms(1,2) by (intro ext) (rule agreed_of_order_cong)
  then have "List.map_filter (agreed_of so1) g = List.map_filter (agreed_of so2) g"
    by (rule arg_cong)
  then have a: "fst (apply_agreement_check so1 g) = fst (apply_agreement_check so2 g)"
    by (simp only: eq1 eq2 fst_conv)
  have "write_log (List.map_filter (disagreement_of so1) g) [] =
      write_log (List.map_filter (disagreement_of so2) g) []"
    using assms(1,2) by (intro write_log_cong disagreements_order_cong)
  then have l: "write_log (snd (apply_agreement_check so1 g)) [] =
      write_log (snd (apply_agreement_check so2 g)) []"
    by (simp only: eq1 eq2 snd_conv)
  show ?thesis unfolding write_outputs_def a l ..
qed

text \<open>
  C9. Two runs of the pipeline on the same input file with the same threshold differ at
  most in the order in which their label sets iterate (string hashes change from run to
  run); whatever these orders, the two runs end the same way: both raise the same
  exception before writing, or both leave the same clean file and the same report.
\<close>

theorem main_deterministic:
  assumes "valid_set_order so1" and "valid_set_order so2"
  shows "main so1 csv pf ge threshold input = main so2 csv pf ge threshold input"
proof (cases input)
  case None
  then show ?thesis by (simp add: main_def)
next
  case (Some content)
  show ?thesis
  proof (cases "filter_by_confidence pf ge (csv content) threshold")
    case (Inl e)
    with Some show ?thesis by (simp add: main_def)
  next
    case (Inr high)
    have "write_outputs (fst (apply_agreement_check so1 (group_by_text high)))
            (snd (apply_agreement_check so1 (group_by_text high))) =
          write_outputs (fst (apply_agreement_check so2 (group_by_text high)))
            (snd (apply_agreement_check so2 (group_by_text high)))"
      using assms distinct_keys_group_by_text by (rule outputs_order_cong)
    then show ?thesis by (simp add: main_def Some Inr Let_def)
  qed
qed

lemma sample_filter:
  "filter_by_confidence float_decimal ge_rat sample_rows (8 / 10) =
     Inr [accepted ''hello'' ''alice'' ''pos'' (9 / 10), accepted ''x'' ''a'' ''cat'' (9 / 10),
          accepted ''hello'' ''bob'' ''pos'' (85 / 100), accepted ''x'' ''b'' ''dog'' (95 / 100)]"
  by (simp add: sample_rows_def qc1_defs fd_simps)

lemma sample_report_line2:
  "disagreement_line (PyStr ''x'', [PyStr ''cat'', PyStr ''dog'']) = ''TEXT: x | LABELS: cat, dog''"
  by code_simp

lemma sample_main:
  "main remdups (\<lambda>content. sample_rows) float_decimal ge_rat (8 / 10) (Some []) =
     Inr \<lparr>clean_file = clean_line (PyStr ''hello'', PyStr ''pos'') @ [newline],
          disagreements_file = ''TEXT: x | LABELS: cat, dog'' @ [newline],
          raised = None\<rparr>"
  by code_simp

lemma sample_checks:
  "apply_agreement_check remdups (group_by_text sample_accepted) =
   ([(PyStr ''hello'', PyStr ''pos'')], [(PyStr ''x'', [PyStr ''cat'', PyStr ''dog''])])"
  by code_simp

lemma sample_checks_rev:
  "apply_agreement_check (\<lambda>xs. rev (remdups xs)) (group_by_text sample_accepted) =
   ([(PyStr ''hello'', PyStr ''pos'')], [(PyStr ''x'', [PyStr ''dog'', PyStr ''cat''])])"
  by code_simp

lemma keys_filter_in_order:
  "distinct (map fst g) \<Longrightarrow>
     map fst (filter P g) = filter (\<lambda>k. k \<in> fst ` set (filter P g)) (map fst g)"
proof (induction g)
  case Nil
  show ?case by simp
next
  case (Cons x g)
  then have fresh: "fst x \<notin> fst ` set g" and dist: "distinct (map fst g)" by simp_all
  from Cons.IH [OF dist]
  have ih: "map fst (filter P g) = filter (\<lambda>k. k \<in> fst ` set (filter P g)) (map fst g)" .
  from fresh have out: "fst x \<notin> fst ` set (filter P g)" by auto
  show ?case
  proof (cases "P x")
    case True
    have ne: "\<And>k. k \<in> set (map fst g) \<Longrightarrow> k \<noteq> fst x"
      using fresh by (simp only: set_map) blast
    have "filter (\<lambda>k. k = fst x \<or> k \<in> fst ` set (filter P g)) (map fst g) =
        filter (\<lambda>k. k \<in> fst ` set (filter P g)) (map fst g)"
      by (rule filter_cong [OF refl]) (simp add: ne)
    with True ih show ?thesis by simp
  next
    case False
    with out ih show ?thesis by simp
  qed
qed

lemma clean_file_lines:
  "lines_of (clean_file (write_outputs agreed dis)) = map clean_line agreed"
proof -
  have f: "clean_file (write_outputs agreed dis) =
      concat (map (\<lambda>item. clean_line item @ [newline]) agreed)"
    by (simp add: write_outputs_def write_clean_eq Let_def)
  have "\<forall>item\<in>set agreed. newline \<notin> set (clean_line item)"
    by (simp add: newline_notin_clean_line)
  then show ?thesis unfolding f by (rule lines_of_records)
qed

lemma keys_group_by_text: "map fst (group_by_text anns) = first_seen (map ann_text anns)"
  by (simp only: group_by_text_eq_spec keys_group_spec)

text \<open>
  C10. Whatever order the label sets iterate in, the agreed samples and the disagreements
  each come out with their texts in order of first occurrence among the accepted
  annotations; the lines of the clean file are the records of the agreed samples in that
  order; and the report is the entries of the disagreements in that order (up to the
  first one with a \<^verbatim>\<open>None\<close> label, where the writer raises).
\<close>

theorem outputs_in_first_seen_order:
  "map fst (fst (apply_agreement_check so (group_by_text anns))) =
     filter (\<lambda>t. t \<in> fst ` set (fst (apply_agreement_check so (group_by_text anns))))
       (first_seen (map ann_text anns)) \<and>
   map fst (snd (apply_agreement_check so (group_by_text anns))) =
     filter (\<lambda>t. t \<in> fst ` set (snd (apply_agreement_check so (group_by_text anns))))
       (first_seen (map ann_text anns)) \<and>
   lines_of (clean_file (write_outputs (fst (apply_agreement_check so (group_by_text anns)))
                                       (snd (apply_agreement_check so (group_by_text anns))))) =
     map clean_line (fst (apply_agreement_check so (group_by_text anns))) \<and>
   disagreements_file (write_outputs (fst (apply_agreement_check so (group_by_text anns)))
                                     (snd (apply_agreement_check so (group_by_text anns)))) =
     concat (map (\<lambda>d. disagreement_line d @ [newline])
               (takeWhile (\<lambda>d. PyNone \<notin> set (snd d)) (snd (apply_agreement_check so (group_by_text anns)))))"
proof (intro conjI)
  let ?g = "group_by_text anns"
  let ?P = "\<lambda>grp. length (so (map ann_label (snd grp))) = 1"
  have dist: "distinct (map fst ?g)" by (rule distinct_keys_group_by_text)
  have a: "map fst (fst (apply_agreement_check so ?g)) = map fst (filter ?P ?g)"
    using dist by (simp add: agreement_check_eq keys_agreed)
  have d: "map fst (snd (apply_agreement_check so ?g)) = map fst (filter (\<lambda>x. \<not> ?P x) ?g)"
    using dist by (simp add: agreement_check_eq keys_disagreements)
  have a': "fst ` set (fst (apply_agreement_check so ?g)) = fst ` set (filter ?P ?g)"
    using a by (metis set_map)
  have d': "fst ` set (snd (apply_agreement_check so ?g)) = fst ` set (filter (\<lambda>x. \<not> ?P x) ?g)"
    using d by (metis set_map)
  show "map fst (fst (apply_agreement_check so ?g)) =
      filter (\<lambda>t. t \<in> fst ` set (fst (apply_agreement_check so ?g))) (first_seen (map ann_text anns))"
    unfolding a a' keys_group_by_text [symmetric] using dist by (rule keys_filter_in_order)
  show "map fst (snd (apply_agreement_check so ?g)) =
      filter (\<lambda>t. t \<in> fst ` set (snd (apply_agreement_check so ?g))) (first_seen (map ann_text anns))"
    unfolding d d' keys_group_by_text [symmetric] using dist by (rule keys_filter_in_order)
  show "lines_of (clean_file (write_outputs (fst (apply_agreement_check so ?g))
        (snd (apply_agreement_check so ?g)))) = map clean_line (fst (apply_agreement_check so ?g))"
    by (rule clean_file_lines)
  show "disagreements_file (write_outputs (fst (apply_agreement_check so ?g))
        (snd (apply_agreement_check so ?g))) =
      concat (map (\<lambda>d. disagreement_line d @ [newline])
        (takeWhile (\<lambda>d. PyNone \<notin> set (snd d)) (snd (apply_agreement_check so ?g))))"
    by (simp add: write_outputs_def write_log_eq)
qed

text \<open>
  The sample run under two iteration orders of the label set of x: the disagreements
  differ in the order of their labels, the files do not.
\<close>

theorem main_deterministic_witness:
  "valid_set_order remdups \<and> valid_set_order (\<lambda>xs. rev (remdups xs)) \<and>
   snd (apply_agreement_check remdups (group_by_text sample_accepted)) \<noteq>
     snd (apply_agreement_check (\<lambda>xs. rev (remdups xs)) (group_by_text sample_accepted)) \<and>
   main remdups (\<lambda>content. sample_rows) float_decimal ge_rat (8 / 10) (Some []) =
     Inr \<lparr>clean_file = clean_line (PyStr ''hello'', PyStr ''pos'') @ [newline],
          disagreements_file = ''TEXT: x | LABELS: cat, dog'' @ [newline],
          raised = None\<rparr> \<and>
   main (\<lambda>xs. rev (remdups xs)) (\<lambda>content. sample_rows) float_decimal ge_rat (8 / 10) (Some []) =
     Inr \<lparr>clean_file = clean_line (PyStr ''hello'', PyStr ''pos'') @ [newline],
          disagreements_file = ''TEXT: x | LABELS: cat, dog'' @ [newline],
          raised = None\<rparr>"
proof -
  note t = main_deterministic [OF valid_set_order_remdups valid_set_order_rev_remdups,
      of "\<lambda>content. sample_rows" float_decimal ge_rat "8 / 10" "Some []"]
  have d: "snd (apply_agreement_check remdups (group_by_text sample_accepted)) \<noteq>
     snd (apply_agreement_check (\<lambda>xs. rev (remdups xs)) (group_by_text sample_accepted))"
    by (simp add: sample_checks sample_checks_rev)
  from t have m: "main (\<lambda>xs. rev (remdups xs)) (\<lambda>content. sample_rows) float_decimal ge_rat (8 / 10) (Some []) =
     Inr \<lparr>clean_file = clean_line (PyStr ''hello'', PyStr ''pos'') @ [newline],
          disagreements_file = ''TEXT: x | LABELS: cat, dog'' @ [newline],
          raised = None\<rparr>"
    by (simp only: sample_main)
  show ?thesis
    by (intro conjI valid_set_order_remdups valid_set_order_rev_remdups d sample_main m)
qed

lemma sample_first_seen:
  "first_seen (map ann_text sample_accepted) = [PyStr ''hello'', PyStr ''x'']"
  by (simp add: sample_accepted_def accepted_def)

text \<open>
  The sample run: hello is met before x, the clean file holds the record of hello and the
  report the entry of x.
\<close>

theorem outputs_in_first_seen_order_witness:
  "first_seen (map ann_text sample_accepted) = [PyStr ''hello'', PyStr ''x''] \<and>
   apply_agreement_check remdups (group_by_text sample_accepted) =
     ([(PyStr ''hello'', PyStr ''pos'')], [(PyStr ''x'', [PyStr ''cat'', PyStr ''dog''])]) \<and>
   lines_of (clean_file (write_outputs [(PyStr ''hello'', PyStr ''pos'')]
                                       [(PyStr ''x'', [PyStr ''cat'', PyStr ''dog''])])) =
     [clean_line (PyStr ''hello'', PyStr ''pos'')] \<and>
   disagreements_file (write_outputs [(PyStr ''hello'', PyStr ''pos'')]
                                     [(PyStr ''x'', [PyStr ''cat'', PyStr ''dog''])]) =
     ''TEXT: x | LABELS: cat, dog'' @ [newline]"
proof -
  have c: "apply_agreement_check remdups (group_by_text sample_accepted) =
     ([(PyStr ''hello'', PyStr ''pos'')], [(PyStr ''x'', [PyStr ''cat'', PyStr ''dog''])])"
    by (rule sample_checks)
  note t = outputs_in_first_seen_order [of remdups sample_accepted]
  from t have l: "lines_of (clean_file (write_outputs [(PyStr ''hello'', PyStr ''pos'')]
        [(PyStr ''x'', [PyStr ''cat'', PyStr ''dog''])])) = [clean_line (PyStr ''hello'', PyStr ''pos'')]"
    by (simp add: c)
  from t have r: "disagreements_file (write_outputs [(PyStr ''hello'', PyStr ''pos'')]
        [(PyStr ''x'', [PyStr ''cat'', PyStr ''dog''])]) = ''TEXT: x | LABELS: cat, dog'' @ [newline]"
    by (simp add: c sample_report_line2)
  show ?thesis by (intro conjI sample_first_seen c l r)
qed

end
